theory Spec2Isabelle
  imports
    Complex_Main
    "HOL-Library.Signed_Division"
    "HOL-Library.Product_Lexorder"
    "HOL-Library.Monad_Syntax"
    "HOL-Library.Stream"
begin

section \<open>The UAV-to-ground allocation solver (src/program.cpp)\<close>

text \<open>
  Conventions of the embedding.
  \<^item> A C++ \<open>double\<close> is a value of the type \<open>double\<close> below: a real number that the
    rounding \<open>rd64\<close> of IEEE 754 binary64 (53 bits, round to nearest, ties to even, gradual
    underflow) returns. Every arithmetic operation of the source on doubles is the exact
    operation followed by \<open>rd64\<close> (\<open>dadd\<close>, \<open>dsub\<close>, \<open>dmul\<close>, \<open>ddiv\<close>); a decimal literal
    \<open>c\<close> of the source is \<open>dbl c\<close>, the double nearest to \<open>c\<close>; \<open>pow\<close> and \<open>log\<close> are the
    rounded \<open>powr\<close> and \<open>ln\<close>; a product and a sum are rounded one after the other,
    never fused (the source is compiled as ISO C++17, where GCC does not contract
    them). The type has no infinity, no NaN and one zero: a result
    beyond the largest finite double is still rounded to 53 bits, and a division by zero
    is 0 as in HOL (the source divides by a zero only in \<open>weighted / (total_s + 1e-12)\<close>,
    when the sizes of the flows sum to \<open>-1e-12\<close>).
  \<^item> A C++ \<open>int\<close> is a HOL \<open>int\<close>; \<open>%\<close> on ints is \<open>smod\<close>, which truncates towards zero
    as C++ does. The sum \<open>phi + t\<close> of build_bandwidth_matrix is taken in 32 bits
    (\<open>int32\<close>, two's complement wrap-around), since a phase near the largest \<open>int\<close> makes
    it overflow.
  \<^item> \<open>vector::operator[]\<close> out of range is undefined behaviour in C++. The model reads a
    vector through \<open>elem_at\<close>, which returns \<open>None\<close> there; every function that can reach
    such a read returns an \<open>option\<close>, and \<open>None\<close> stands for "the program has no defined
    result" (also for a library exception such as a negative size given to \<open>resize\<close>).
  \<^item> The global tables \<open>g_pre_bw\<close>, \<open>g_distance_factor\<close>, \<open>g_delay_factor\<close>,
    \<open>g_candidates\<close> and \<open>g_time_slots\<close> are the fields of the record \<open>globals\<close>. A
    function that writes them takes the record and returns the new one; a function that
    only reads them takes the record.
  \<^item> The fields of the structs keep their names behind a prefix (\<open>flow_tf\<close> for
    \<open>Flow::tf\<close>, \<open>item_z\<close> for \<open>ScheduleItem::z\<close>, \<open>cand_ux\<close> for \<open>CandidateInfo::ux\<close>,
    \<open>slot_t\<close> for \<open>TimeSlotInfo::t\<close>), since several structs share field names.
  \<^item> \<open>std::sort\<close> leaves the order of equivalent elements unspecified. The model sorts
    with \<open>sort_key\<close>, the stable insertion sort, which is one of the permitted results.
\<close>

subsection \<open>Double arithmetic\<close>

text \<open>Rounding a real to the nearest integer, a tie to the even one.\<close>

definition rne :: "real \<Rightarrow> int" where
  "rne y = (let f = \<lfloor>y\<rfloor>; d = y - of_int f in
            if d < 1 / 2 then f else if 1 / 2 < d then f + 1 else if even f then f else f + 1)"

text \<open>
  The exponent of the unit in the last place of \<open>x\<close>: 52 below the exponent of \<open>x\<close>, and
  \<open>- 1074\<close> in the subnormal range.
\<close>

definition binade :: "real \<Rightarrow> int" where
  "binade x = max \<lfloor>log 2 \<bar>x\<bar>\<rfloor> (- 1022) - 52"

definition rd64 :: "real \<Rightarrow> real" where
  "rd64 x = (if x = 0 then 0
             else of_int (rne (x / 2 powr of_int (binade x))) * 2 powr of_int (binade x))"

typedef double = "range rd64"
  morphisms dval Abs_double
  by blast

definition dbl :: "real \<Rightarrow> double" where
  "dbl x = Abs_double (rd64 x)"

instantiation double :: linorder
begin

definition less_eq_double :: "double \<Rightarrow> double \<Rightarrow> bool" where
  "less_eq_double a b \<longleftrightarrow> dval a \<le> dval b"

definition less_double :: "double \<Rightarrow> double \<Rightarrow> bool" where
  "less_double a b \<longleftrightarrow> dval a < dval b"

instance
  by standard (auto simp: less_eq_double_def less_double_def dval_inject)

end

definition dadd :: "double \<Rightarrow> double \<Rightarrow> double" where
  "dadd a b = dbl (dval a + dval b)"

definition dsub :: "double \<Rightarrow> double \<Rightarrow> double" where
  "dsub a b = dbl (dval a - dval b)"

definition dmul :: "double \<Rightarrow> double \<Rightarrow> double" where
  "dmul a b = dbl (dval a * dval b)"

definition ddiv :: "double \<Rightarrow> double \<Rightarrow> double" where
  "ddiv a b = dbl (dval a / dval b)"

definition dabs :: "double \<Rightarrow> double" where
  "dabs a = dbl \<bar>dval a\<bar>"

definition dpow :: "double \<Rightarrow> double \<Rightarrow> double" where
  "dpow a b = dbl (dval a powr dval b)"

definition dlog :: "double \<Rightarrow> double" where
  "dlog a = dbl (ln (dval a))"

text \<open>The conversion of an \<open>int\<close> to \<open>double\<close>, exact for 32-bit values.\<close>

definition d_of_int :: "int \<Rightarrow> double" where
  "d_of_int k = dbl (of_int k)"



text \<open>The literal \<open>1e-9\<close> of the source.\<close>

definition eps9 :: double where
  "eps9 = dbl (1 / 10 ^ 9)"

text \<open>The value of \<open>a + b\<close> on 32-bit \<open>int\<close>s.\<close>

definition int32 :: "int \<Rightarrow> int" where
  "int32 k = (k + 2 ^ 31) mod 2 ^ 32 - 2 ^ 31"

subsection \<open>Structures\<close>

record Flow =
  flow_f :: int
  flow_x :: int
  flow_y :: int
  flow_tf :: int
  flow_s :: double
  flow_m1 :: int
  flow_n1 :: int
  flow_m2 :: int
  flow_n2 :: int

record ScheduleItem =
  item_t :: int
  item_x :: int
  item_y :: int
  item_z :: double

record CandidateInfo =
  cand_ux :: int
  cand_uy :: int
  cand_potential :: double
  cand_avg_bandwidth :: double
  cand_distance :: int
  cand_peak_times :: "int list"
  cand_total_capacity :: double

record TimeSlotInfo =
  slot_t :: int
  slot_bandwidth :: double
  slot_delay_factor :: double
  slot_value :: double

record globals =
  g_pre_bw :: "double list list list"
  g_distance_factor :: "double list"
  g_delay_factor :: "double list"
  g_candidates :: "CandidateInfo list list"
  g_time_slots :: "TimeSlotInfo list list list"

definition initial_globals :: globals where
  "initial_globals =
     \<lparr>g_pre_bw = [], g_distance_factor = [], g_delay_factor = [],
      g_candidates = [], g_time_slots = []\<rparr>"

subsection \<open>Vector access\<close>

definition elem_at :: "'a list \<Rightarrow> int \<Rightarrow> 'a option" where
  "elem_at xs i = (if 0 \<le> i \<and> i < int (length xs) then Some (xs ! nat i) else None)"

definition store_at :: "'a list \<Rightarrow> int \<Rightarrow> 'a \<Rightarrow> 'a list option" where
  "store_at xs i v = (if 0 \<le> i \<and> i < int (length xs) then Some (xs[nat i := v]) else None)"

fun fold_opt :: "('a \<Rightarrow> 's \<Rightarrow> 's option) \<Rightarrow> 'a list \<Rightarrow> 's \<Rightarrow> 's option" where
  "fold_opt f [] st = Some st"
| "fold_opt f (a # as) st = (case f a st of None \<Rightarrow> None | Some st' \<Rightarrow> fold_opt f as st')"

subsection \<open>build_bandwidth_matrix\<close>

definition cell_bandwidth :: "double list list \<Rightarrow> int list list \<Rightarrow> int \<Rightarrow> int \<Rightarrow> int \<Rightarrow> double option" where
  "cell_bandwidth uav_b uav_phi t x y = do {
     phi_row \<leftarrow> elem_at uav_phi x;
     phi \<leftarrow> elem_at phi_row y;
     let tau = int32 (phi + t) smod 10;
     if 3 \<le> tau \<and> tau \<le> 6 then do {
       b_row \<leftarrow> elem_at uav_b x;
       b \<leftarrow> elem_at b_row y;
       Some b }
     else if tau = 2 \<or> tau = 7 then do {
       b_row \<leftarrow> elem_at uav_b x;
       b \<leftarrow> elem_at b_row y;
       Some (ddiv b (dbl 2)) }
     else Some (dbl 0) }"

definition build_bandwidth_matrix ::
  "int \<Rightarrow> int \<Rightarrow> int \<Rightarrow> double list list \<Rightarrow> int list list \<Rightarrow> globals \<Rightarrow> globals option" where
  "build_bandwidth_matrix M N T uav_b uav_phi g =
     (if M < 0 \<or> N < 0 \<or> T < 0 then None
      else do {
        tbl \<leftarrow> those (map (\<lambda>t.
                 those (map (\<lambda>x.
                   those (map (\<lambda>y. cell_bandwidth uav_b uav_phi t x y) [0..N - 1]))
                 [0..M - 1]))
               [0..T - 1]);
        Some (g\<lparr>g_pre_bw := tbl\<rparr>) })"

subsection \<open>build_lookup_tables and the clamped lookups\<close>

text \<open>The entries \<open>pow(2.0, -0.1 * d)\<close> and \<open>10.0 / (dt + 10.0)\<close>.\<close>

definition distance_entry :: "int \<Rightarrow> double" where
  "distance_entry d = dpow (dbl 2) (dmul (dbl (- 0.1)) (d_of_int d))"

definition delay_entry :: "int \<Rightarrow> double" where
  "delay_entry dt = ddiv (dbl 10) (dadd (d_of_int dt) (dbl 10))"

definition build_lookup_tables :: "int \<Rightarrow> int \<Rightarrow> globals \<Rightarrow> globals option" where
  "build_lookup_tables max_distance max_time g =
     (if max_distance + 1 < 0 \<or> max_time + 1 < 0 then None
      else Some (g\<lparr>g_distance_factor := map distance_entry [0..max_distance],
                    g_delay_factor := map delay_entry [0..max_time]\<rparr>))"

text \<open>
  The lookup \<open>tbl[min(i, (int)tbl.size() - 1)]\<close> of build_smart_candidates and
  compute_flow_score_fast.
\<close>

definition lookup_clamped :: "double list \<Rightarrow> int \<Rightarrow> double option" where
  "lookup_clamped tbl i = elem_at tbl (min i (int (length tbl) - 1))"

subsection \<open>build_smart_candidates\<close>

text \<open>
  The accumulators of the metrics loop of one raw candidate (\<open>total_bw\<close>,
  \<open>weighted_bw\<close>, \<open>count\<close>, \<open>max_bw\<close> and \<open>cand.peak_times\<close>).
\<close>

record metrics =
  m_total_bw :: double
  m_weighted_bw :: double
  m_count :: int
  m_max_bw :: double
  m_peak_times :: "int list"

definition metrics_init :: metrics where
  "metrics_init =
     \<lparr>m_total_bw = dbl 0, m_weighted_bw = dbl 0, m_count = 0, m_max_bw = dbl 0, m_peak_times = []\<rparr>"

definition pre_bw_at :: "globals \<Rightarrow> int \<Rightarrow> int \<Rightarrow> int \<Rightarrow> double option" where
  "pre_bw_at g t x y = do {
     plane \<leftarrow> elem_at (g_pre_bw g) t;
     row \<leftarrow> elem_at plane x;
     elem_at row y }"

definition metrics_step :: "globals \<Rightarrow> Flow \<Rightarrow> int \<Rightarrow> int \<Rightarrow> int \<Rightarrow> int \<Rightarrow> metrics \<Rightarrow> metrics option" where
  "metrics_step g fl ux uy distance t m = do {
     bw \<leftarrow> pre_bw_at g t ux uy;
     if bw > eps9 then do {
       let dt = t - flow_tf fl;
       delay_f \<leftarrow> lookup_clamped (g_delay_factor g) dt;
       dist_f \<leftarrow> lookup_clamped (g_distance_factor g) distance;
       Some \<lparr>m_total_bw = dadd (m_total_bw m) bw,
             m_weighted_bw = dadd (m_weighted_bw m) (dmul (dmul bw delay_f) dist_f),
             m_count = m_count m + 1,
             m_max_bw = (if bw > m_max_bw m then bw else m_max_bw m),
             m_peak_times =
               (if bw > m_max_bw m then [t]
                else if dabs (dsub bw (m_max_bw m)) < eps9 then m_peak_times m @ [t]
                else m_peak_times m)\<rparr> }
     else Some m }"

text \<open>The line \<open>quality_score * 0.6 + capacity_score * 0.3 - distance_penalty * 0.1\<close>.\<close>

definition candidate_potential :: "double \<Rightarrow> double \<Rightarrow> double \<Rightarrow> double" where
  "candidate_potential quality_score capacity_score distance_penalty =
     dsub (dadd (dmul quality_score (dbl 0.6)) (dmul capacity_score (dbl 0.3)))
          (dmul distance_penalty (dbl 0.1))"

definition make_candidate :: "globals \<Rightarrow> int \<Rightarrow> int \<Rightarrow> Flow \<Rightarrow> int \<Rightarrow> int \<Rightarrow> CandidateInfo option" where
  "make_candidate g T max_time_window fl ux uy = do {
     let distance = \<bar>flow_x fl - ux\<bar> + \<bar>flow_y fl - uy\<bar>;
     let t_end = min T (flow_tf fl + max_time_window);
     m \<leftarrow> fold_opt (metrics_step g fl ux uy distance) [flow_tf fl..t_end - 1] metrics_init;
     let total_capacity = m_total_bw m;
     let avg_bandwidth =
           (if m_count m > 0 then ddiv (m_total_bw m) (d_of_int (m_count m)) else dbl 0);
     let distance_penalty = dmul (d_of_int distance) (dbl 0.5);
     let capacity_score =
           (if total_capacity > eps9 then dlog (dadd (dbl 1) total_capacity) else dbl 0);
     let quality_score = m_weighted_bw m;
     Some \<lparr>cand_ux = ux, cand_uy = uy,
           cand_potential = candidate_potential quality_score capacity_score distance_penalty,
           cand_avg_bandwidth = avg_bandwidth,
           cand_distance = distance,
           cand_peak_times = m_peak_times m,
           cand_total_capacity = total_capacity\<rparr> }"

definition admitted :: "Flow \<Rightarrow> CandidateInfo \<Rightarrow> bool" where
  "admitted fl cand \<longleftrightarrow>
     cand_total_capacity cand > dmul (flow_s fl) (dbl 0.05) \<or> cand_distance cand \<le> 2"

text \<open>Step 1: the two nested loops over the rectangle, \<open>ux\<close> outside and \<open>uy\<close> inside.\<close>

definition raw_candidates :: "globals \<Rightarrow> int \<Rightarrow> int \<Rightarrow> Flow \<Rightarrow> CandidateInfo list option" where
  "raw_candidates g T max_time_window fl =
     fold_opt (\<lambda>(ux, uy) raw. do {
                  cand \<leftarrow> make_candidate g T max_time_window fl ux uy;
                  Some (if admitted fl cand then raw @ [cand] else raw) })
       (List.product [flow_m1 fl..flow_m2 fl] [flow_n1 fl..flow_n2 fl]) []"

text \<open>Step 3: the inner loop over \<open>final_candidates\<close> with its \<open>break\<close>, then the outer loop.\<close>

fun too_close :: "CandidateInfo \<Rightarrow> CandidateInfo list \<Rightarrow> bool" where
  "too_close c [] = False"
| "too_close c (fc # fcs) =
     (if \<bar>cand_ux c - cand_ux fc\<bar> + \<bar>cand_uy c - cand_uy fc\<bar> \<le> 1
         \<and> cand_potential c < dmul (cand_potential fc) (dbl 0.8)
      then True else too_close c fcs)"

fun select_diverse :: "int \<Rightarrow> CandidateInfo list \<Rightarrow> CandidateInfo list \<Rightarrow> CandidateInfo list" where
  "select_diverse top_k [] final = final"
| "select_diverse top_k (c # rest) final =
     (if int (length final) < top_k
      then (if too_close c final then select_diverse top_k rest final
            else select_diverse top_k rest (final @ [c]))
      else final)"

text \<open>Step 4: the time slots of one retained candidate.\<close>

definition slot_step :: "globals \<Rightarrow> Flow \<Rightarrow> CandidateInfo \<Rightarrow> int \<Rightarrow> TimeSlotInfo list \<Rightarrow> TimeSlotInfo list option" where
  "slot_step g fl cand t slots = do {
     bw \<leftarrow> pre_bw_at g t (cand_ux cand) (cand_uy cand);
     if bw > eps9 then do {
       let dt = t - flow_tf fl;
       delay_f \<leftarrow> lookup_clamped (g_delay_factor g) dt;
       dist_f \<leftarrow> lookup_clamped (g_distance_factor g) (cand_distance cand);
       Some (slots @ [\<lparr>slot_t = t, slot_bandwidth = bw, slot_delay_factor = delay_f,
                        slot_value = dmul (dmul delay_f bw) dist_f\<rparr>]) }
     else Some slots }"

text \<open>
  The comparators \<open>a.value > b.value\<close> and \<open>a.potential > b.potential\<close> sort in
  descending order: ascending in the negated value.
\<close>

definition candidate_slots :: "globals \<Rightarrow> int \<Rightarrow> int \<Rightarrow> Flow \<Rightarrow> CandidateInfo \<Rightarrow> TimeSlotInfo list option" where
  "candidate_slots g T max_time_window fl cand = do {
     let t_end = min T (flow_tf fl + max_time_window);
     slots \<leftarrow> fold_opt (slot_step g fl cand) [flow_tf fl..t_end - 1] [];
     Some (sort_key (\<lambda>sl. - dval (slot_value sl)) slots) }"

text \<open>
  The body of the loop over the flows: the final candidates of one flow and their slots.
  \<open>raw_candidates[0]\<close> is read whether or not any raw candidate was admitted.
\<close>

definition flow_candidates ::
  "globals \<Rightarrow> int \<Rightarrow> int \<Rightarrow> Flow \<Rightarrow> (CandidateInfo list \<times> TimeSlotInfo list list) option" where
  "flow_candidates g T max_time_window fl = do {
     raw \<leftarrow> raw_candidates g T max_time_window fl;
     let sorted_raw = sort_key (\<lambda>c. - dval (cand_potential c)) raw;
     let rect_size = (flow_m2 fl - flow_m1 fl + 1) * (flow_n2 fl - flow_n1 fl + 1);
     let top_k = max 2 (min 8 (min rect_size (int (length sorted_raw))));
     first \<leftarrow> elem_at sorted_raw 0;
     let final_candidates = select_diverse top_k (tl sorted_raw) [first];
     slots \<leftarrow> those (map (candidate_slots g T max_time_window fl) final_candidates);
     Some (final_candidates, slots) }"

definition build_smart_candidates ::
  "Flow list \<Rightarrow> int \<Rightarrow> int \<Rightarrow> int \<Rightarrow> int \<Rightarrow> globals \<Rightarrow> globals option" where
  "build_smart_candidates flows T M N max_time_window g = do {
     per_flow \<leftarrow> those (map (flow_candidates g T max_time_window) flows);
     Some (g\<lparr>g_candidates := map fst per_flow, g_time_slots := map snd per_flow\<rparr>) }"

subsection \<open>compute_flow_score_fast\<close>

record score_acc =
  acc_transmitted :: double
  acc_delay_sum :: double
  acc_dist_sum :: double
  acc_landing_uavs :: "(int \<times> int) set"

definition score_init :: score_acc where
  "score_init =
     \<lparr>acc_transmitted = dbl 0, acc_delay_sum = dbl 0, acc_dist_sum = dbl 0, acc_landing_uavs = {}\<rparr>"

definition score_step :: "globals \<Rightarrow> Flow \<Rightarrow> ScheduleItem \<Rightarrow> score_acc \<Rightarrow> score_acc option" where
  "score_step g flow item a = do {
     let delay = item_t item - flow_tf flow;
     let hops = \<bar>flow_x flow - item_x item\<bar> + \<bar>flow_y flow - item_y item\<bar>;
     delay_f \<leftarrow> lookup_clamped (g_delay_factor g) delay;
     dist_f \<leftarrow> lookup_clamped (g_distance_factor g) hops;
     Some \<lparr>acc_transmitted = dadd (acc_transmitted a) (item_z item),
           acc_delay_sum = dadd (acc_delay_sum a) (dmul delay_f (ddiv (item_z item) (flow_s flow))),
           acc_dist_sum = dadd (acc_dist_sum a) (dmul (ddiv (item_z item) (flow_s flow)) dist_f),
           acc_landing_uavs = insert (item_x item, item_y item) (acc_landing_uavs a)\<rparr> }"

text \<open>
  The last line, \<open>100.0 * (0.4 * u2g + 0.2 * delay_sum + 0.3 * dist_sum + 0.1 * land)\<close>: the
  sum is taken from the left.
\<close>

definition weighted_terms :: "double \<Rightarrow> double \<Rightarrow> double \<Rightarrow> double \<Rightarrow> double" where
  "weighted_terms u2g delay_sum dist_sum land =
     dmul (dbl 100)
       (dadd (dadd (dadd (dmul (dbl 0.4) u2g) (dmul (dbl 0.2) delay_sum))
                   (dmul (dbl 0.3) dist_sum))
             (dmul (dbl 0.1) land))"

definition compute_flow_score_fast :: "globals \<Rightarrow> Flow \<Rightarrow> ScheduleItem list \<Rightarrow> double option" where
  "compute_flow_score_fast g flow schedule =
     (if flow_s flow \<le> eps9 then Some (dbl 0)
      else do {
        a \<leftarrow> fold_opt (score_step g flow) schedule score_init;
        let u2g = min (ddiv (acc_transmitted a) (flow_s flow)) (dbl 1);
        let k = (if acc_landing_uavs a = {} then 1 else int (card (acc_landing_uavs a)));
        let land = ddiv (dbl 1) (d_of_int k);
        Some (weighted_terms u2g (acc_delay_sum a) (acc_dist_sum a) land) })"

subsection \<open>greedy_allocate\<close>

text \<open>
  The lambda \<open>capacity_idx\<close>, with \<open>M' = g_pre_bw[0].size()\<close> and
  \<open>N' = g_pre_bw[0][0].size()\<close>.
\<close>

definition capacity_idx :: "int \<Rightarrow> int \<Rightarrow> int \<Rightarrow> int \<Rightarrow> int \<Rightarrow> int" where
  "capacity_idx M' N' t x y = t * M' * N' + x * N' + y"

text \<open>
  The initialisation loops write \<open>g_pre_bw[t][x][y]\<close> into the flat table, which starts
  as \<open>T' * M' * N'\<close> zeros.
\<close>

definition init_step :: "globals \<Rightarrow> int \<Rightarrow> int \<Rightarrow> int \<times> int \<times> int \<Rightarrow> double list \<Rightarrow> double list option" where
  "init_step g M' N' = (\<lambda>(t, x, y) remaining_capacity. do {
     bw \<leftarrow> pre_bw_at g t x y;
     store_at remaining_capacity (capacity_idx M' N' t x y) bw })"

definition init_remaining_capacity :: "globals \<Rightarrow> int \<Rightarrow> int \<Rightarrow> int \<Rightarrow> double list option" where
  "init_remaining_capacity g T' M' N' =
     fold_opt (init_step g M' N')
       (List.product [0..T' - 1] (List.product [0..M' - 1] [0..N' - 1]))
       (replicate (nat (T' * M' * N')) (dbl 0))"

text \<open>
  One pass over the slots of a candidate at \<open>(ux, uy)\<close>. The state is the remaining
  capacity table, \<open>remaining_need\<close> and the schedule of the flow. The two subtractions
  \<open>remaining_capacity[cidx] -= use\<close> and \<open>remaining_need -= use\<close> round.
\<close>

fun consume_slots ::
  "int \<Rightarrow> int \<Rightarrow> int \<Rightarrow> int \<Rightarrow> TimeSlotInfo list \<Rightarrow> double list \<times> double \<times> ScheduleItem list \<Rightarrow>
     (double list \<times> double \<times> ScheduleItem list) option" where
  "consume_slots M' N' ux uy [] st = Some st"
| "consume_slots M' N' ux uy (slot # slots) (remaining_capacity, remaining_need, schedule) =
     (if remaining_need \<le> eps9 then Some (remaining_capacity, remaining_need, schedule)
      else
        let cidx = capacity_idx M' N' (slot_t slot) ux uy in
        case elem_at remaining_capacity cidx of
          None \<Rightarrow> None
        | Some avail \<Rightarrow>
            if avail > eps9 then
              let use = min avail remaining_need in
              consume_slots M' N' ux uy slots
                (remaining_capacity[nat cidx := dsub avail use], dsub remaining_need use,
                 schedule @ [\<lparr>item_t = slot_t slot, item_x = ux, item_y = uy, item_z = use\<rparr>])
            else consume_slots M' N' ux uy slots (remaining_capacity, remaining_need, schedule))"

text \<open>
  The candidate of index \<open>cand_idx\<close> of flow \<open>idx\<close> and its slots
  (\<open>g_candidates[idx][cand_idx]\<close> and \<open>g_time_slots[idx][cand_idx]\<close>).
\<close>

definition candidate_and_slots :: "globals \<Rightarrow> int \<Rightarrow> int \<Rightarrow> (CandidateInfo \<times> TimeSlotInfo list) option" where
  "candidate_and_slots g idx cand_idx = do {
     cands \<leftarrow> elem_at (g_candidates g) idx;
     cand \<leftarrow> elem_at cands cand_idx;
     flow_slots \<leftarrow> elem_at (g_time_slots g) idx;
     slots \<leftarrow> elem_at flow_slots cand_idx;
     Some (cand, slots) }"

text \<open>
  One pass of slot consumption on the candidate of index \<open>cand_idx\<close> of flow \<open>idx\<close>.
\<close>

definition consume_candidate ::
  "globals \<Rightarrow> int \<Rightarrow> int \<Rightarrow> int \<Rightarrow> int \<Rightarrow> double list \<times> double \<times> ScheduleItem list \<Rightarrow>
     (double list \<times> double \<times> ScheduleItem list) option" where
  "consume_candidate g M' N' idx cand_idx st = do {
     (cand, slots) \<leftarrow> candidate_and_slots g idx cand_idx;
     consume_slots M' N' (cand_ux cand) (cand_uy cand) slots st }"

text \<open>
  The allocation of one flow, from the shared table \<open>remaining_capacity\<close>: the chosen
  candidate, then the next one when more than \<open>fl.s * 0.1\<close> is still missing.
  It returns the new table and the schedule of the flow.
\<close>

definition allocate_one_flow ::
  "globals \<Rightarrow> int \<Rightarrow> int \<Rightarrow> Flow \<Rightarrow> int \<Rightarrow> int \<Rightarrow> double list \<Rightarrow> ScheduleItem list \<Rightarrow>
     (double list \<times> ScheduleItem list) option" where
  "allocate_one_flow g M' N' fl idx solution_idx remaining_capacity schedule = do {
     cands \<leftarrow> elem_at (g_candidates g) idx;
     let cand_idx = (if solution_idx \<ge> int (length cands) then 0 else solution_idx);
     (rc1, need1, sched1) \<leftarrow>
        consume_candidate g M' N' idx cand_idx (remaining_capacity, flow_s fl, schedule);
     if need1 > dmul (flow_s fl) (dbl 0.1) \<and> length cands > 1 then do {
       let cand_idx2 = (cand_idx + 1) mod int (length cands);
       (rc2, need2, sched2) \<leftarrow> consume_candidate g M' N' idx cand_idx2 (rc1, need1, sched1);
       Some (rc2, sched2) }
     else Some (rc1, sched1) }"

text \<open>The body of the loop \<open>for (int idx : order)\<close>.\<close>

definition allocate_flow ::
  "globals \<Rightarrow> int \<Rightarrow> int \<Rightarrow> Flow list \<Rightarrow> int list \<Rightarrow> int \<Rightarrow> double list \<times> ScheduleItem list list \<Rightarrow>
     (double list \<times> ScheduleItem list list) option" where
  "allocate_flow g M' N' flows solution idx = (\<lambda>(remaining_capacity, schedules). do {
     fl \<leftarrow> elem_at flows idx;
     solution_idx \<leftarrow> elem_at solution idx;
     schedule \<leftarrow> elem_at schedules idx;
     (rc, sched) \<leftarrow> allocate_one_flow g M' N' fl idx solution_idx remaining_capacity schedule;
     Some (rc, schedules[nat idx := sched]) })"

text \<open>
  The order of the flows: ascending start time, then descending size. The comparator of
  the source is the lexicographic order on the key \<open>(tf, - s)\<close>.
\<close>

definition flow_order :: "Flow list \<Rightarrow> int list" where
  "flow_order flows =
     sort_key (\<lambda>i. (flow_tf (flows ! nat i), - dval (flow_s (flows ! nat i))))
       [0..int (length flows) - 1]"

text \<open>
  The first part of greedy_allocate: the working table is built from \<open>g_pre_bw\<close>, then
  the loop \<open>for (int idx : order)\<close> runs over the flows of \<open>order\<close>. It returns the
  working table and the schedules at the end of the loop.
\<close>

definition decode_flows ::
  "globals \<Rightarrow> Flow list \<Rightarrow> int list \<Rightarrow> int list \<Rightarrow> (double list \<times> ScheduleItem list list) option" where
  "decode_flows g flows solution order = do {
     plane0 \<leftarrow> elem_at (g_pre_bw g) 0;
     row0 \<leftarrow> elem_at plane0 0;
     let T' = int (length (g_pre_bw g));
     let M' = int (length plane0);
     let N' = int (length row0);
     rc0 \<leftarrow> init_remaining_capacity g T' M' N';
     fold_opt (allocate_flow g M' N' flows solution) order (rc0, replicate (length flows) []) }"

definition weighted_score_step ::
  "globals \<Rightarrow> Flow list \<Rightarrow> ScheduleItem list list \<Rightarrow> int \<Rightarrow> double \<Rightarrow> double option" where
  "weighted_score_step g flows schedules i weighted = do {
     fl \<leftarrow> elem_at flows i;
     schedule \<leftarrow> elem_at schedules i;
     sc \<leftarrow> compute_flow_score_fast g fl schedule;
     Some (dadd weighted (dmul sc (flow_s fl))) }"

definition greedy_allocate ::
  "globals \<Rightarrow> Flow list \<Rightarrow> int list \<Rightarrow> (ScheduleItem list list \<times> double) option" where
  "greedy_allocate g flows solution = do {
     (remaining_capacity, schedules) \<leftarrow> decode_flows g flows solution (flow_order flows);
     let FN = int (length flows);
     let total_s = foldl (\<lambda>total_s fl. dadd total_s (flow_s fl)) (dbl 0) flows;
     weighted \<leftarrow> fold_opt (weighted_score_step g flows schedules) [0..FN - 1] (dbl 0);
     Some (schedules, ddiv weighted (dadd total_s (dbl (1 / 10 ^ 12)))) }"

definition generate_smart_initial_solution :: "Flow list \<Rightarrow> int list" where
  "generate_smart_initial_solution flows = replicate (length flows) 0"

subsection \<open>local_search\<close>

text \<open>
  The generator \<open>mt19937 rng(42)\<close> is library code: the model takes the sequence of its
  outputs as a stream of naturals; \<open>rng()\<close> reads the head and leaves the tail.
\<close>

record ls_state =
  ls_solution :: "int list"
  ls_best_score :: double
  ls_best_solution :: "int list"
  ls_no_improve :: int
  ls_problematic_flows :: "int list"
  ls_rng :: "nat stream"

definition transmitted_total :: "ScheduleItem list \<Rightarrow> double" where
  "transmitted_total schedule =
     foldl (\<lambda>transmitted item. dadd transmitted (item_z item)) (dbl 0) schedule"

definition problematic_step :: "Flow list \<Rightarrow> ScheduleItem list list \<Rightarrow> int \<Rightarrow> int list \<Rightarrow> int list option" where
  "problematic_step flows schedules i problematic_flows = do {
     schedule \<leftarrow> elem_at schedules i;
     fl \<leftarrow> elem_at flows i;
     Some (if transmitted_total schedule < dmul (flow_s fl) (dbl 0.8) then problematic_flows @ [i]
           else problematic_flows) }"

definition find_problematic_flows :: "Flow list \<Rightarrow> ScheduleItem list list \<Rightarrow> int list option" where
  "find_problematic_flows flows schedules =
     fold_opt (problematic_step flows schedules) [0..int (length flows) - 1] []"

text \<open>The branch taken on problematic flows: one flow of the list gets a drawn index.\<close>

definition mutate_problematic :: "globals \<Rightarrow> int list \<Rightarrow> int list \<Rightarrow> nat stream \<Rightarrow> (int list \<times> nat stream) option" where
  "mutate_problematic g new_solution problematic_flows rng = do {
     idx \<leftarrow> elem_at problematic_flows (int (shd rng mod length problematic_flows));
     let rng1 = stl rng;
     cands \<leftarrow> elem_at (g_candidates g) idx;
     let num_cands = int (length cands);
     if num_cands > 1 then do {
       new_solution' \<leftarrow> store_at new_solution idx (int (shd rng1 mod nat num_cands));
       Some (new_solution', stl rng1) }
     else Some (new_solution, rng1) }"

text \<open>One change of the random exploration; \<open>rng() % FN\<close> with no flow is a division by zero.\<close>

definition random_change :: "globals \<Rightarrow> int \<Rightarrow> int list \<times> nat stream \<Rightarrow> (int list \<times> nat stream) option" where
  "random_change g FN = (\<lambda>(new_solution, rng).
     if FN = 0 then None
     else do {
       let flow_idx = int (shd rng mod nat FN);
       let rng1 = stl rng;
       cands \<leftarrow> elem_at (g_candidates g) flow_idx;
       let num_cands = int (length cands);
       if num_cands > 1 then do {
         new_solution' \<leftarrow> store_at new_solution flow_idx (int (shd rng1 mod nat num_cands));
         Some (new_solution', stl rng1) }
       else Some (new_solution, rng1) })"

definition mutate_random :: "globals \<Rightarrow> int \<Rightarrow> int list \<Rightarrow> nat stream \<Rightarrow> (int list \<times> nat stream) option" where
  "mutate_random g FN new_solution rng = do {
     let num_changes = int (shd rng mod 2) + 1;
     fold_opt (\<lambda>c. random_change g FN) [0..num_changes - 1] (new_solution, stl rng) }"

text \<open>
  The mutation of one iteration. \<open>&&\<close> short-circuits: \<open>rng() % 10\<close> is drawn only when
  the list of problematic flows is not empty.
\<close>

definition mutate :: "globals \<Rightarrow> int \<Rightarrow> int list \<Rightarrow> int list \<Rightarrow> nat stream \<Rightarrow> (int list \<times> nat stream) option" where
  "mutate g FN solution problematic_flows rng =
     (if problematic_flows \<noteq> [] then
        (if shd rng mod 10 < 7 then mutate_problematic g solution problematic_flows (stl rng)
         else mutate_random g FN solution (stl rng))
      else mutate_random g FN solution rng)"

text \<open>The body of the loop over \<open>iter\<close>, up to the test of \<open>no_improve\<close>.\<close>

definition ls_step :: "globals \<Rightarrow> Flow list \<Rightarrow> ls_state \<Rightarrow> ls_state option" where
  "ls_step g flows st = do {
     (new_solution, rng') \<leftarrow>
        mutate g (int (length flows)) (ls_solution st) (ls_problematic_flows st) (ls_rng st);
     (schedules, score) \<leftarrow> greedy_allocate g flows new_solution;
     if score > dadd (ls_best_score st) eps9 then do {
       problematic_flows \<leftarrow> find_problematic_flows flows schedules;
       Some \<lparr>ls_solution = new_solution, ls_best_score = score, ls_best_solution = new_solution,
             ls_no_improve = 0, ls_problematic_flows = problematic_flows, ls_rng = rng'\<rparr> }
     else Some (st\<lparr>ls_no_improve := ls_no_improve st + 1, ls_rng := rng'\<rparr>) }"

text \<open>The loop: at most \<open>n\<close> more iterations, left early once \<open>no_improve > 20\<close>.\<close>

fun ls_loop :: "globals \<Rightarrow> Flow list \<Rightarrow> nat \<Rightarrow> ls_state \<Rightarrow> ls_state option" where
  "ls_loop g flows 0 st = Some st"
| "ls_loop g flows (Suc n) st =
     (case ls_step g flows st of
        None \<Rightarrow> None
      | Some st' \<Rightarrow> if ls_no_improve st' > 20 then Some st' else ls_loop g flows n st')"

definition local_search ::
  "globals \<Rightarrow> Flow list \<Rightarrow> int list \<Rightarrow> double \<Rightarrow> int \<Rightarrow> nat stream \<Rightarrow> (int list \<times> double) option" where
  "local_search g flows solution current_score max_iterations rng = do {
     (schedules_cur, score_cur) \<leftarrow> greedy_allocate g flows solution;
     problematic_flows \<leftarrow> find_problematic_flows flows schedules_cur;
     st \<leftarrow> ls_loop g flows (nat max_iterations)
             \<lparr>ls_solution = solution, ls_best_score = current_score, ls_best_solution = solution,
              ls_no_improve = 0, ls_problematic_flows = problematic_flows, ls_rng = rng\<rparr>;
     Some (ls_best_solution st, ls_best_score st) }"

subsection \<open>solve\<close>

text \<open>Phase 1 of solve: the three tables are built in turn.\<close>

definition preprocess ::
  "int \<Rightarrow> int \<Rightarrow> int \<Rightarrow> double list list \<Rightarrow> int list list \<Rightarrow> Flow list \<Rightarrow> globals option" where
  "preprocess M N T uav_b uav_phi flows = do {
     g1 \<leftarrow> build_bandwidth_matrix M N T uav_b uav_phi initial_globals;
     g2 \<leftarrow> build_lookup_tables (M + N) T g1;
     build_smart_candidates flows T M N 60 g2 }"

text \<open>Phases 1 and 2 of solve: the tables, then the first decoding (\<open>schedules_init\<close>).\<close>

definition initial_decode ::
  "int \<Rightarrow> int \<Rightarrow> int \<Rightarrow> double list list \<Rightarrow> int list list \<Rightarrow> Flow list \<Rightarrow>
     (ScheduleItem list list \<times> double) option" where
  "initial_decode M N T uav_b uav_phi flows = do {
     g \<leftarrow> preprocess M N T uav_b uav_phi flows;
     greedy_allocate g flows (generate_smart_initial_solution flows) }"

subsection \<open>Quantities of the statements\<close>

definition at_cell :: "int \<Rightarrow> int \<Rightarrow> int \<Rightarrow> ScheduleItem \<Rightarrow> bool" where
  "at_cell t x y it \<longleftrightarrow> item_t it = t \<and> item_x it = x \<and> item_y it = y"

text \<open>
  The amounts that a list of items delivers at one \<open>(t, x, y)\<close>, in the order of the list,
  and their sum as a real number.
\<close>

definition drawn_at :: "ScheduleItem list \<Rightarrow> int \<Rightarrow> int \<Rightarrow> int \<Rightarrow> double list" where
  "drawn_at items t x y = map item_z (filter (at_cell t x y) items)"

definition delivered_at :: "ScheduleItem list \<Rightarrow> int \<Rightarrow> int \<Rightarrow> int \<Rightarrow> real" where
  "delivered_at schedule t x y = sum_list (map dval (drawn_at schedule t x y))"

text \<open>The amount a schedule delivers in all, as a real number.\<close>

definition delivered_total :: "ScheduleItem list \<Rightarrow> real" where
  "delivered_total schedule = sum_list (map (\<lambda>it. dval (item_z it)) schedule)"

text \<open>
  Amounts taken one after the other out of a quantity \<open>r\<close> by the subtraction of doubles:
  each amount is positive and at most what is left when it is taken. The result is what
  is left at the end.
\<close>

fun draw_chain :: "double \<Rightarrow> double list \<Rightarrow> double option" where
  "draw_chain r [] = Some r"
| "draw_chain r (u # us) = (if dbl 0 < u \<and> u \<le> r then draw_chain (dsub r u) us else None)"

text \<open>
  The items of a list taken one after the other out of a capacity table, each at the
  entry of its \<open>(t, x, y)\<close>: each amount is positive and at most what the entry holds when
  it is taken. The result is the table at the end.
\<close>

fun draw_items :: "int \<Rightarrow> int \<Rightarrow> double list \<Rightarrow> ScheduleItem list \<Rightarrow> double list option" where
  "draw_items M' N' rc [] = Some rc"
| "draw_items M' N' rc (it # its) =
     (let cidx = capacity_idx M' N' (item_t it) (item_x it) (item_y it) in
      case elem_at rc cidx of
        None \<Rightarrow> None
      | Some avail \<Rightarrow>
          if dbl 0 < item_z it \<and> item_z it \<le> avail
          then draw_items M' N' (rc[nat cidx := dsub avail (item_z it)]) its
          else None)"

text \<open>The items of all the flows in the order in which the decoder produces them.\<close>

definition draw_sequence :: "Flow list \<Rightarrow> ScheduleItem list list \<Rightarrow> ScheduleItem list" where
  "draw_sequence flows schedules = concat (map (\<lambda>i. schedules ! nat i) (flow_order flows))"






subsection \<open>Example inputs\<close>

definition ex_item :: "int \<Rightarrow> int \<Rightarrow> int \<Rightarrow> double \<Rightarrow> ScheduleItem" where
  "ex_item t x y z = \<lparr>item_t = t, item_x = x, item_y = y, item_z = z\<rparr>"

definition ex_flow :: "int \<Rightarrow> int \<Rightarrow> int \<Rightarrow> int \<Rightarrow> double \<Rightarrow> int \<Rightarrow> int \<Rightarrow> int \<Rightarrow> int \<Rightarrow> Flow" where
  "ex_flow f x y tf s m1 n1 m2 n2 =
     \<lparr>flow_f = f, flow_x = x, flow_y = y, flow_tf = tf, flow_s = s,
      flow_m1 = m1, flow_n1 = n1, flow_m2 = m2, flow_n2 = n2\<rparr>"

text \<open>
  A grid of a single cell of bandwidth 0.9 and phase 2 over two time steps, and two flows
  on that cell: one of size 0.3 from time 0 and one of size 5 from time 1.
\<close>

definition shared_cell_flows :: "Flow list" where
  "shared_cell_flows = [ex_flow 0 0 0 0 (dbl 0.3) 0 0 0 0, ex_flow 1 0 0 1 (dbl 5) 0 0 0 0]"

text \<open>
  A grid of a single cell of bandwidth 1.2 and phase 3 over three time steps, and a flow
  of size 3.4 on that cell.
\<close>

definition long_flow :: Flow where
  "long_flow = ex_flow 0 0 0 0 (dbl 3.4) 0 0 0 0"

text \<open>A grid of a single cell of bandwidth 10 and phase 3, and a flow of size 10 on that cell.\<close>

definition full_flow :: Flow where
  "full_flow = ex_flow 0 0 0 0 (dbl 10) 0 0 0 0"

text \<open>
  A grid of one row and three cells over one time step; the cell in the middle has no
  bandwidth. The factor tables are those of \<open>build_lookup_tables (1 + 3) 1\<close>. Two flows
  of size 10 start at time 0, the first at cell \<open>(0, 0)\<close> and the second at \<open>(0, 2)\<close>.
  The candidate and slot records carry the fields that the decoder reads (the cell of a
  candidate and the time of a slot); the second flow has the three cells as candidates,
  the farthest first.
\<close>

definition cand_at :: "int \<Rightarrow> int \<Rightarrow> int \<Rightarrow> CandidateInfo" where
  "cand_at ux uy distance =
     \<lparr>cand_ux = ux, cand_uy = uy, cand_potential = dbl 0, cand_avg_bandwidth = dbl 0,
      cand_distance = distance, cand_peak_times = [], cand_total_capacity = dbl 0\<rparr>"

definition slot_at :: "int \<Rightarrow> double \<Rightarrow> TimeSlotInfo" where
  "slot_at t bw = \<lparr>slot_t = t, slot_bandwidth = bw, slot_delay_factor = dbl 1, slot_value = bw\<rparr>"

definition ex_globals :: globals where
  "ex_globals =
     \<lparr>g_pre_bw = [[[dbl 10, dbl 0, dbl 10]]],
      g_distance_factor = map distance_entry [0..4],
      g_delay_factor = map delay_entry [0..1],
      g_candidates = [[cand_at 0 0 0], [cand_at 0 0 2, cand_at 0 1 1, cand_at 0 2 0]],
      g_time_slots = [[[slot_at 0 (dbl 10)]], [[slot_at 0 (dbl 10)], [], [slot_at 0 (dbl 10)]]]\<rparr>"

definition ex_flows :: "Flow list" where
  "ex_flows = [ex_flow 0 0 0 0 (dbl 10) 0 0 0 2, ex_flow 1 0 2 0 (dbl 10) 0 0 0 2]"


text \<open>
  The first three outputs of \<open>mt19937\<close> seeded with 42, as the source seeds it; the
  examples read no further.
\<close>

definition rng_42 :: "nat stream" where
  "rng_42 = 1608637542 ## 3421126067 ## 4083286876 ## sconst 0"

text \<open>The same tables when the second flow has two candidates.\<close>

definition ex_globals_two :: globals where
  "ex_globals_two =
     ex_globals\<lparr>g_candidates := [[cand_at 0 0 0], [cand_at 0 2 0, cand_at 0 0 2]],
                 g_time_slots := [[[slot_at 0 (dbl 10)]], [[slot_at 0 (dbl 10)], [slot_at 0 (dbl 10)]]]\<rparr>"

text \<open>A grid of one row and two cells without bandwidth, and a flow over both cells.\<close>

definition idle_flow :: Flow where
  "idle_flow = ex_flow 0 0 0 0 (dbl 5) 0 0 0 1"

definition idle_globals :: globals where
  "idle_globals =
     \<lparr>g_pre_bw = [[[dbl 0, dbl 0]]],
      g_distance_factor = map distance_entry [0..3],
      g_delay_factor = map delay_entry [0..1],
      g_candidates = [], g_time_slots = []\<rparr>"

text \<open>
  The two scores of the example, about 54.999999999997 and 99.999999999995: the decoder
  gives the first when the second flow gets nothing, and the second when both flows are
  served in full.
\<close>

definition ex_score_low :: double where
  "ex_score_low = dbl (7740561859542655 / 2 ^ 47)"

definition ex_score_high :: double where
  "ex_score_high = dbl (3518437208883025 / 2 ^ 45)"

text \<open>
  The state of the local search on the example after the first decoding: the second flow
  gets nothing from its candidates 0 and 1, and is problematic.
\<close>

definition ex_state :: ls_state where
  "ex_state =
     \<lparr>ls_solution = [0, 0], ls_best_score = ex_score_low, ls_best_solution = [0, 0],
      ls_no_improve = 0, ls_problematic_flows = [1], ls_rng = rng_42\<rparr>"

definition ex_state_accepted :: ls_state where
  "ex_state_accepted =
     \<lparr>ls_solution = [0, 1], ls_best_score = ex_score_high, ls_best_solution = [0, 1],
      ls_no_improve = 0, ls_problematic_flows = [], ls_rng = sconst 0\<rparr>"

section \<open>Properties\<close>

subsection \<open>Rounding\<close>

lemma rne_of_int [simp]: "rne (of_int n) = n"
  by (simp add: rne_def)

lemma rne_bounds: "\<lfloor>y\<rfloor> \<le> rne y" "rne y \<le> \<lfloor>y\<rfloor> + 1"
  by (simp_all add: rne_def Let_def)

lemma rne_mono: "a \<le> b \<Longrightarrow> rne a \<le> rne b"
proof -
  assume ab: "a \<le> b"
  then have fl: "\<lfloor>a\<rfloor> \<le> \<lfloor>b\<rfloor>" by (rule floor_mono)
  show ?thesis
  proof (cases "\<lfloor>a\<rfloor> = \<lfloor>b\<rfloor>")
    case True
    with ab show ?thesis by (auto simp: rne_def Let_def)
  next
    case False
    with fl have "\<lfloor>a\<rfloor> + 1 \<le> \<lfloor>b\<rfloor>" by simp
    with rne_bounds(2) [of a] rne_bounds(1) [of b] show ?thesis by linarith
  qed
qed

lemma rne_uminus: "rne (- y) = - rne y"
proof (cases "y \<in> \<int>")
  case True
  then obtain n where "y = of_int n" by (auto elim: Ints_cases)
  then have "- y = of_int (- n)" by simp
  then show ?thesis using \<open>y = of_int n\<close> by (simp only: rne_of_int)
next
  case False
  have ne: "of_int \<lfloor>y\<rfloor> \<noteq> y" using False by (metis Ints_of_int)
  then have lt: "of_int \<lfloor>y\<rfloor> < y" using of_int_floor_le [of y] by linarith
  have ub: "y < of_int \<lfloor>y\<rfloor> + 1" by linarith
  have fl: "\<lfloor>- y\<rfloor> = - \<lfloor>y\<rfloor> - 1"
  proof (rule floor_unique)
    show "of_int (- \<lfloor>y\<rfloor> - 1) \<le> - y" using ub by simp linarith
    show "- y < of_int (- \<lfloor>y\<rfloor> - 1) + 1" using lt by simp
  qed
  show ?thesis
    unfolding rne_def Let_def fl using lt ub by (auto simp: algebra_simps)
qed

lemma rne_nonneg: "0 \<le> y \<Longrightarrow> 0 \<le> rne y"
  using rne_mono [of 0 y] rne_of_int [of 0] by simp

lemma binade_bounds:
  assumes "x \<noteq> 0"
  shows "\<bar>x\<bar> < 2 powr of_int (binade x + 53)"
    and "- 1074 < binade x \<Longrightarrow> 2 powr of_int (binade x + 52) \<le> \<bar>x\<bar>"
    and "- 1074 \<le> binade x"
proof -
  define k where "k = \<lfloor>log 2 \<bar>x\<bar>\<rfloor>"
  have pos: "0 < \<bar>x\<bar>" using assms by simp
  from floor_log_eq_powr_iff [OF pos, of 2 k] have lo: "2 powr of_int k \<le> \<bar>x\<bar>"
    and hi: "\<bar>x\<bar> < 2 powr (of_int k + 1)"
    by (simp_all add: k_def)
  have b: "binade x = max k (- 1022) - 52" by (simp add: binade_def k_def)
  show "- 1074 \<le> binade x" by (simp add: b)
  have "of_int k + 1 \<le> (of_int (binade x + 53) :: real)" by (simp add: b)
  then have "(2::real) powr (of_int k + 1) \<le> 2 powr of_int (binade x + 53)" by simp
  with hi show "\<bar>x\<bar> < 2 powr of_int (binade x + 53)" by linarith
  show "2 powr of_int (binade x + 52) \<le> \<bar>x\<bar>" if "- 1074 < binade x"
  proof -
    from that have "binade x + 52 = k" by (simp add: b max_def split: if_splits)
    with lo show ?thesis by simp
  qed
qed

lemma binade_uminus [simp]: "binade (- x) = binade x"
  by (simp add: binade_def)

lemma binade_mono: "0 < x \<Longrightarrow> x \<le> y \<Longrightarrow> binade x \<le> binade y"
proof -
  assume x: "0 < x" and xy: "x \<le> y"
  then have "log 2 \<bar>x\<bar> \<le> log 2 \<bar>y\<bar>" by simp
  then have "\<lfloor>log 2 \<bar>x\<bar>\<rfloor> \<le> \<lfloor>log 2 \<bar>y\<bar>\<rfloor>" by (rule floor_mono)
  then show ?thesis by (simp add: binade_def)
qed

lemma rd64_0 [simp]: "rd64 0 = 0"
  by (simp add: rd64_def)

lemma rd64_uminus: "rd64 (- x) = - rd64 x"
  by (simp add: rd64_def rne_uminus)

lemma rd64_nonneg: "0 \<le> x \<Longrightarrow> 0 \<le> rd64 x"
  by (simp add: rd64_def rne_nonneg)

text \<open>The scaled value lies below \<open>2 ^ 53\<close>, and from \<open>2 ^ 52\<close> on in the normal range.\<close>

lemma scaled_less:
  assumes "0 < x"
  shows "x / 2 powr of_int (binade x) < 2 ^ 53"
proof -
  have "x < 2 powr of_int (binade x + 53)" using binade_bounds(1) [of x] assms by simp
  also have "\<dots> = 2 powr of_int (binade x) * 2 ^ 53" by (simp add: powr_add)
  finally show ?thesis by (simp add: pos_divide_less_eq mult.commute)
qed

lemma scaled_ge:
  assumes "0 < x" "- 1074 < binade x"
  shows "2 ^ 52 \<le> x / 2 powr of_int (binade x)"
proof -
  have "2 powr of_int (binade x + 52) \<le> x" using binade_bounds(2) [of x] assms by simp
  moreover have "(2::real) powr of_int (binade x + 52) = 2 powr of_int (binade x) * 2 ^ 52"
    by (simp add: powr_add)
  ultimately show ?thesis by (simp add: pos_le_divide_eq mult.commute)
qed

lemma rd64_upper:
  assumes "0 < x"
  shows "rd64 x \<le> 2 powr of_int (binade x + 53)"
proof -
  have "rne (x / 2 powr of_int (binade x)) \<le> rne (of_int (2 ^ 53))"
    using scaled_less [OF assms] by (intro rne_mono) simp
  then have "rne (x / 2 powr of_int (binade x)) \<le> 2 ^ 53" by (simp only: rne_of_int)
  then have "real_of_int (rne (x / 2 powr of_int (binade x))) \<le> 2 ^ 53"
    by (metis of_int_le_iff of_int_numeral of_int_power)
  then have "real_of_int (rne (x / 2 powr of_int (binade x))) * 2 powr of_int (binade x)
               \<le> 2 ^ 53 * 2 powr of_int (binade x)"
    by (rule mult_right_mono) simp
  then show ?thesis using assms by (simp add: rd64_def powr_add mult.commute)
qed

lemma rd64_lower:
  assumes "0 < x" "- 1074 < binade x"
  shows "2 powr of_int (binade x + 52) \<le> rd64 x"
proof -
  have "rne (of_int (2 ^ 52)) \<le> rne (x / 2 powr of_int (binade x))"
    using scaled_ge [OF assms] by (intro rne_mono) simp
  then have "2 ^ 52 \<le> rne (x / 2 powr of_int (binade x))" by (simp only: rne_of_int)
  then have "2 ^ 52 \<le> real_of_int (rne (x / 2 powr of_int (binade x)))"
    by (metis of_int_le_iff of_int_numeral of_int_power)
  then have "2 ^ 52 * 2 powr of_int (binade x)
               \<le> real_of_int (rne (x / 2 powr of_int (binade x))) * 2 powr of_int (binade x)"
    by (rule mult_right_mono) simp
  then show ?thesis using assms by (simp add: rd64_def powr_add mult.commute)
qed

lemma rd64_mono_pos:
  assumes x: "0 < x" and xy: "x \<le> y"
  shows "rd64 x \<le> rd64 y"
proof (cases "binade x = binade y")
  case True
  have "x / 2 powr of_int (binade y) \<le> y / 2 powr of_int (binade y)"
    using xy by (simp add: divide_right_mono)
  then have "rne (x / 2 powr of_int (binade y)) \<le> rne (y / 2 powr of_int (binade y))"
    by (rule rne_mono)
  then have "real_of_int (rne (x / 2 powr of_int (binade y))) * 2 powr of_int (binade y)
               \<le> real_of_int (rne (y / 2 powr of_int (binade y))) * 2 powr of_int (binade y)"
    by (intro mult_right_mono) simp_all
  then show ?thesis using x xy True by (simp add: rd64_def)
next
  case False
  with binade_mono [OF x xy] have lt: "binade x + 1 \<le> binade y" by simp
  have y: "0 < y" using x xy by simp
  have "- 1074 < binade y" using binade_bounds(3) [of x] x lt by simp
  from rd64_lower [OF y this] have "2 powr of_int (binade y + 52) \<le> rd64 y" .
  moreover have "(2::real) powr of_int (binade x + 53) \<le> 2 powr of_int (binade y + 52)"
    using lt by simp
  ultimately show ?thesis using rd64_upper [OF x] by linarith
qed

lemma rd64_mono: "x \<le> y \<Longrightarrow> rd64 x \<le> rd64 y"
proof -
  assume xy: "x \<le> y"
  consider "0 < x" | "x \<le> 0" "0 \<le> y" | "y < 0" by linarith
  then show ?thesis
  proof cases
    case 1
    then show ?thesis using xy by (rule rd64_mono_pos)
  next
    case 2
    have "rd64 x \<le> 0" using rd64_nonneg [of "- x"] 2(1) by (simp add: rd64_uminus)
    with rd64_nonneg [OF 2(2)] show ?thesis by simp
  next
    case 3
    then have "0 < - y" "- y \<le> - x" using xy by simp_all
    from rd64_mono_pos [OF this] show ?thesis by (simp add: rd64_uminus)
  qed
qed

lemma rd64_exact:
  assumes n: "\<bar>n\<bar> < 2 ^ 53" and q: "- 1074 \<le> q"
  shows "rd64 (of_int n * 2 powr of_int q) = of_int n * 2 powr of_int q"
proof (cases "n = 0")
  case True
  then show ?thesis by simp
next
  case False
  define v :: real where "v = of_int n * 2 powr of_int q"
  have v0: "v \<noteq> 0" using False by (simp add: v_def)
  have absv: "\<bar>v\<bar> = of_int \<bar>n\<bar> * 2 powr of_int q" by (simp add: v_def abs_mult)
  have "real_of_int \<bar>n\<bar> < 2 ^ 53" using n by (metis of_int_less_iff of_int_numeral of_int_power)
  then have "\<bar>v\<bar> < 2 ^ 53 * 2 powr of_int q" unfolding absv by (intro mult_strict_right_mono) simp_all
  also have "\<dots> = 2 powr of_int (q + 53)" by (simp add: powr_add mult.commute)
  finally have vlt: "\<bar>v\<bar> < 2 powr of_int (q + 53)" .
  have bq: "binade v \<le> q"
  proof (cases "- 1074 < binade v")
    case True
    from binade_bounds(2) [OF v0 True] vlt
    have "(2::real) powr of_int (binade v + 52) < 2 powr of_int (q + 53)" by linarith
    then have "(of_int (binade v + 52) :: real) < of_int (q + 53)" by simp
    then show ?thesis by linarith
  next
    case False
    with q show ?thesis by simp
  qed
  define b where "b = binade v"
  define j where "j = nat (q - b)"
  have qj: "q = b + int j" using bq by (simp add: j_def b_def)
  have split: "(2::real) powr of_int q = 2 powr of_int b * 2 ^ j"
    by (subst qj) (simp only: of_int_add powr_add of_int_of_nat_eq powr_realpow zero_less_numeral)
  have v: "v = of_int (n * 2 ^ j) * 2 powr of_int b"
    by (simp add: v_def split)
  have pos: "(2::real) powr of_int b \<noteq> 0" by simp
  have sc: "v / 2 powr of_int b = of_int (n * 2 ^ j)"
    by (subst v) (simp only: nonzero_mult_div_cancel_right [OF pos])
  have "rd64 v = of_int (rne (v / 2 powr of_int b)) * 2 powr of_int b"
    using v0 by (simp add: rd64_def b_def)
  also have "\<dots> = of_int (n * 2 ^ j) * 2 powr of_int b"
    by (simp only: sc rne_of_int)
  also have "\<dots> = v" by (rule v [symmetric])
  finally show ?thesis by (simp add: v_def)
qed

lemma rd64_of_int: "\<bar>n\<bar> \<le> 2 ^ 53 \<Longrightarrow> rd64 (of_int n) = of_int n"
proof -
  assume n: "\<bar>n\<bar> \<le> 2 ^ 53"
  show ?thesis
  proof (cases "\<bar>n\<bar> = 2 ^ 53")
    case True
    then have "n = 2 ^ 53 \<or> n = - (2 ^ 53)" by linarith
    then have "real_of_int n = of_int (sgn n * 2 ^ 52) * 2 powr of_int 1"
      by (auto simp: sgn_if)
    moreover have "\<bar>sgn n * 2 ^ 52\<bar> < (2 ^ 53 :: int)" by (simp add: abs_mult sgn_if)
    ultimately show ?thesis using rd64_exact [of "sgn n * 2 ^ 52" 1] by simp
  next
    case False
    with n have "\<bar>n\<bar> < 2 ^ 53" by simp
    from rd64_exact [OF this, of 0] show ?thesis by simp
  qed
qed

lemma rd64_idem_pos:
  assumes "0 < x"
  shows "rd64 (rd64 x) = rd64 x"
proof -
  define m where "m = rne (x / 2 powr of_int (binade x))"
  have val: "rd64 x = of_int m * 2 powr of_int (binade x)"
    using assms by (simp add: rd64_def m_def)
  have "m \<le> rne (of_int (2 ^ 53))"
    unfolding m_def using scaled_less [OF assms] by (intro rne_mono) simp
  then have hi: "m \<le> 2 ^ 53" by (simp only: rne_of_int)
  have lo: "0 \<le> m" unfolding m_def using assms by (intro rne_nonneg) simp
  have q: "- 1074 \<le> binade x" using binade_bounds(3) [of x] assms by simp
  show ?thesis
  proof (cases "m = 2 ^ 53")
    case True
    have "rd64 x = of_int (2 ^ 52) * 2 powr of_int (binade x + 1)"
      by (simp add: val True powr_add)
    moreover have "rd64 (of_int (2 ^ 52) * 2 powr of_int (binade x + 1))
                     = of_int (2 ^ 52) * 2 powr of_int (binade x + 1)"
      by (rule rd64_exact) (use q in simp_all)
    ultimately show ?thesis by simp
  next
    case False
    with hi lo have "\<bar>m\<bar> < 2 ^ 53" by simp
    from rd64_exact [OF this q] show ?thesis by (simp add: val)
  qed
qed

lemma rd64_idem [simp]: "rd64 (rd64 x) = rd64 x"
proof -
  consider "0 < x" | "x = 0" | "x < 0" by linarith
  then show ?thesis
  proof cases
    case 1
    then show ?thesis by (rule rd64_idem_pos)
  next
    case 2
    then show ?thesis by simp
  next
    case 3
    then have "rd64 (rd64 (- x)) = rd64 (- x)" by (intro rd64_idem_pos) simp
    then show ?thesis by (simp add: rd64_uminus)
  qed
qed

text \<open>Evaluation at a given binade.\<close>

lemma rd64_eval:
  assumes lo: "2 ^ 52 \<le> \<bar>x\<bar> * 2 ^ k" and hi: "\<bar>x\<bar> * 2 ^ k < 2 ^ 53" and k: "k \<le> 1074"
  shows "rd64 x = of_int (rne (x * 2 ^ k)) / 2 ^ k"
proof -
  have x0: "x \<noteq> 0" using lo by auto
  have p: "(2::real) powr of_int (52 - int k) = 2 ^ 52 / 2 ^ k"
    by (simp add: powr_diff powr_realpow)
  have p': "(2::real) powr (of_int (52 - int k) + 1) = 2 ^ 53 / 2 ^ k"
    by (simp add: powr_diff powr_add powr_realpow)
  have "2 powr of_int (52 - int k) \<le> \<bar>x\<bar> \<and> \<bar>x\<bar> < 2 powr (of_int (52 - int k) + 1)"
    unfolding p p' using lo hi by (simp add: pos_divide_le_eq pos_less_divide_eq)
  moreover have "0 < \<bar>x\<bar>" using x0 by simp
  ultimately have "\<lfloor>log 2 \<bar>x\<bar>\<rfloor> = 52 - int k"
    using floor_log_eq_powr_iff [of "\<bar>x\<bar>" 2 "52 - int k"] by simp
  then have b: "binade x = - int k" using k by (simp add: binade_def)
  have u: "(2::real) powr of_int (binade x) = 1 / 2 ^ k"
    unfolding b by (simp add: powr_minus powr_realpow inverse_eq_divide)
  show ?thesis using x0 unfolding rd64_def u by simp
qed



text \<open>
  The difference of two binary64 values is rounded with a relative error of at most
  \<open>2\<^sup>-\<^sup>5\<^sup>3\<close>: in the subnormal range it is exact.
\<close>

lemma rd64_grid: "\<exists>m :: int. rd64 x = of_int m / 2 ^ 1074"
proof (cases "x = 0")
  case True
  then show ?thesis by (intro exI [of _ 0]) simp
next
  case False
  define b where "b = binade x"
  have b: "- 1074 \<le> b" unfolding b_def by (rule binade_bounds(3) [OF False])
  define j where "j = nat (b + 1074)"
  have "2 powr of_int b = 2 powr (of_int (int j) + of_int (- 1074))"
    using b by (simp add: j_def)
  also have "\<dots> = 2 ^ j * (2::real) powr (- 1074)"
    by (simp only: powr_add of_int_of_nat_eq powr_realpow [OF zero_less_numeral]) simp
  also have "\<dots> = 2 ^ j / 2 ^ 1074" by (simp add: powr_minus_divide)
  finally have "rd64 x = of_int (rne (x / 2 powr of_int b) * 2 ^ j) / 2 ^ 1074"
    using False by (simp add: rd64_def b_def)
  then show ?thesis ..
qed

lemma rne_error: "\<bar>of_int (rne y) - y\<bar> \<le> 1 / 2"
  unfolding rne_def Let_def by (auto simp: abs_le_iff; linarith)

lemma rd64_sub_error:
  fixes a b :: real
  assumes a: "rd64 a = a" and b: "rd64 b = b"
  shows "\<bar>rd64 (a - b) - (a - b)\<bar> \<le> \<bar>a - b\<bar> / 2 ^ 53"
proof (cases "a - b = 0")
  case True
  then show ?thesis by simp
next
  case False
  define x where "x = a - b"
  define e where "e = binade x"
  have x0: "x \<noteq> 0" using False by (simp add: x_def)
  have r: "rd64 x = of_int (rne (x / 2 powr of_int e)) * 2 powr of_int e"
    using x0 by (simp add: rd64_def e_def)
  show ?thesis
  proof (cases "- 1074 < e")
    case True
    from binade_bounds(2) [OF x0] True have lo: "2 powr (of_int e + 52) \<le> \<bar>x\<bar>"
      by (simp add: e_def)
    have "rd64 x - x = (of_int (rne (x / 2 powr of_int e)) - x / 2 powr of_int e) * 2 powr of_int e"
      unfolding r by (simp add: left_diff_distrib)
    then have "\<bar>rd64 x - x\<bar> = \<bar>of_int (rne (x / 2 powr of_int e)) - x / 2 powr of_int e\<bar> * 2 powr of_int e"
      by (simp add: abs_mult)
    also have "\<dots> \<le> 1 / 2 * 2 powr of_int e"
      by (intro mult_right_mono rne_error) simp
    also have "\<dots> = 2 powr (of_int e + 52) / 2 ^ 53"
      by (simp add: powr_add)
    also have "\<dots> \<le> \<bar>x\<bar> / 2 ^ 53"
      using lo by (simp add: divide_right_mono)
    finally show ?thesis by (simp add: x_def)
  next
    case False
    with binade_bounds(3) [OF x0] have e: "e = - 1074" by (simp add: e_def)
    define c :: real where "c = 2 ^ 1074"
    have c: "0 < c" by (simp add: c_def)
    from rd64_grid [of a] rd64_grid [of b] a b obtain m n :: int where
      "a = of_int m / c" "b = of_int n / c" unfolding c_def by auto
    then have xc: "x = of_int (m - n) / c" by (simp add: x_def diff_divide_distrib)
    have p: "(2::real) powr of_int e = 1 / c"
      unfolding c_def by (simp add: e powr_minus_divide)
    from xc c have "x / 2 powr of_int e = of_int (m - n)" unfolding p by simp
    then have "rd64 x = of_int (m - n) * 2 powr of_int e"
      unfolding r by (simp only: rne_of_int)
    also have "\<dots> = x" unfolding p xc by simp
    finally show ?thesis by (simp add: x_def)
  qed
qed



subsection \<open>The type of doubles\<close>

lemma dval_dbl [simp]: "dval (dbl x) = rd64 x"
  by (simp add: dbl_def Abs_double_inverse)

lemma rd64_dval [simp]: "rd64 (dval d) = dval d"
  using dval [of d] by auto

lemma dbl_dval [simp]: "dbl (dval d) = d"
  by (simp add: dbl_def dval_inverse)

lemma double_eq_iff: "a = b \<longleftrightarrow> dval a = dval b"
  by (simp add: dval_inject)

lemma dbl_eq_iff: "dbl a = dbl b \<longleftrightarrow> rd64 a = rd64 b"
  by (simp add: double_eq_iff)

lemma dbl_le_iff: "dbl a \<le> dbl b \<longleftrightarrow> rd64 a \<le> rd64 b"
  by (simp add: less_eq_double_def)

lemma dbl_less_iff: "dbl a < dbl b \<longleftrightarrow> rd64 a < rd64 b"
  by (simp add: less_double_def)


lemma dval_zero [simp]: "dval (dbl 0) = 0"
  by simp

lemma dval_one [simp]: "dval (dbl 1) = 1"
  using rd64_of_int [of 1] by simp


lemma dval_nonneg_iff: "dbl 0 \<le> a \<longleftrightarrow> 0 \<le> dval a"
  by (simp add: less_eq_double_def)

lemma dval_pos_iff: "dbl 0 < a \<longleftrightarrow> 0 < dval a"
  by (simp add: less_double_def)

text \<open>
  Evaluation of \<open>rd64\<close> and \<open>rne\<close> at rational numerals. The rules are stated on
  numerals only, so that rewriting leaves a rounding of unknown terms alone. The rounding
  of a fraction is \<open>rd64_eval\<close> in the binade of the fraction, for each binade between
  \<open>2\<^sup>-\<^sup>5\<^sup>8\<close> and \<open>2\<^sup>5\<^sup>3\<close>.
\<close>

lemma rd64_numeral: "numeral a \<le> (2::real) ^ 53 \<Longrightarrow> rd64 (numeral a) = numeral a"
  using rd64_of_int [of "numeral a"] by simp

lemma rd64_eval_frac:
  "2 ^ 52 \<le> \<bar>numeral a / numeral b :: real\<bar> * 2 ^ k \<Longrightarrow>
   \<bar>numeral a / numeral b :: real\<bar> * 2 ^ k < 2 ^ 53 \<Longrightarrow> k \<le> 1074 \<Longrightarrow>
   rd64 (numeral a / numeral b) = of_int (rne (numeral a / numeral b * 2 ^ k)) / 2 ^ k"
  by (rule rd64_eval)

lemma rd64_eval_inv:
  "2 ^ 52 \<le> \<bar>1 / numeral b :: real\<bar> * 2 ^ k \<Longrightarrow>
   \<bar>1 / numeral b :: real\<bar> * 2 ^ k < 2 ^ 53 \<Longrightarrow> k \<le> 1074 \<Longrightarrow>
   rd64 (1 / numeral b) = of_int (rne (1 / numeral b * 2 ^ k)) / 2 ^ k"
  by (rule rd64_eval)

lemma rne_numeral: "rne (numeral a) = numeral a"
  using rne_of_int [of "numeral a"] by simp

lemma rne_one: "rne 1 = 1"
  using rne_of_int [of 1] by simp

lemma rne_zero: "rne 0 = 0"
  using rne_of_int [of 0] by simp

lemma rne_frac:
  "rne (numeral a / numeral b) =
     (let f = \<lfloor>numeral a / numeral b :: real\<rfloor>; d = (numeral a / numeral b :: real) - of_int f in
      if d < 1 / 2 then f else if 1 / 2 < d then f + 1 else if even f then f else f + 1)"
  by (rule rne_def)

lemma rne_inv:
  "rne (1 / numeral b) =
     (let f = \<lfloor>1 / numeral b :: real\<rfloor>; d = (1 / numeral b :: real) - of_int f in
      if d < 1 / 2 then f else if 1 / 2 < d then f + 1 else if even f then f else f + 1)"
  by (rule rne_def)

lemmas rd64_frac_binades =
  rd64_eval_frac [where k = 0] rd64_eval_frac [where k = 1] rd64_eval_frac [where k = 2]
  rd64_eval_frac [where k = 3] rd64_eval_frac [where k = 4] rd64_eval_frac [where k = 5]
  rd64_eval_frac [where k = 6] rd64_eval_frac [where k = 7] rd64_eval_frac [where k = 8]
  rd64_eval_frac [where k = 9] rd64_eval_frac [where k = 10] rd64_eval_frac [where k = 11]
  rd64_eval_frac [where k = 12] rd64_eval_frac [where k = 13] rd64_eval_frac [where k = 14]
  rd64_eval_frac [where k = 15] rd64_eval_frac [where k = 16] rd64_eval_frac [where k = 17]
  rd64_eval_frac [where k = 18] rd64_eval_frac [where k = 19] rd64_eval_frac [where k = 20]
  rd64_eval_frac [where k = 21] rd64_eval_frac [where k = 22] rd64_eval_frac [where k = 23]
  rd64_eval_frac [where k = 24] rd64_eval_frac [where k = 25] rd64_eval_frac [where k = 26]
  rd64_eval_frac [where k = 27] rd64_eval_frac [where k = 28] rd64_eval_frac [where k = 29]
  rd64_eval_frac [where k = 30] rd64_eval_frac [where k = 31] rd64_eval_frac [where k = 32]
  rd64_eval_frac [where k = 33] rd64_eval_frac [where k = 34] rd64_eval_frac [where k = 35]
  rd64_eval_frac [where k = 36] rd64_eval_frac [where k = 37] rd64_eval_frac [where k = 38]
  rd64_eval_frac [where k = 39] rd64_eval_frac [where k = 40] rd64_eval_frac [where k = 41]
  rd64_eval_frac [where k = 42] rd64_eval_frac [where k = 43] rd64_eval_frac [where k = 44]
  rd64_eval_frac [where k = 45] rd64_eval_frac [where k = 46] rd64_eval_frac [where k = 47]
  rd64_eval_frac [where k = 48] rd64_eval_frac [where k = 49] rd64_eval_frac [where k = 50]
  rd64_eval_frac [where k = 51] rd64_eval_frac [where k = 52] rd64_eval_frac [where k = 53]
  rd64_eval_frac [where k = 54] rd64_eval_frac [where k = 55] rd64_eval_frac [where k = 56]
  rd64_eval_frac [where k = 57] rd64_eval_frac [where k = 58] rd64_eval_frac [where k = 59]
  rd64_eval_frac [where k = 60] rd64_eval_frac [where k = 61] rd64_eval_frac [where k = 62]
  rd64_eval_frac [where k = 63] rd64_eval_frac [where k = 64] rd64_eval_frac [where k = 65]
  rd64_eval_frac [where k = 66] rd64_eval_frac [where k = 67] rd64_eval_frac [where k = 68]
  rd64_eval_frac [where k = 69] rd64_eval_frac [where k = 70] rd64_eval_frac [where k = 71]
  rd64_eval_frac [where k = 72] rd64_eval_frac [where k = 73] rd64_eval_frac [where k = 74]
  rd64_eval_frac [where k = 75] rd64_eval_frac [where k = 76] rd64_eval_frac [where k = 77]
  rd64_eval_frac [where k = 78] rd64_eval_frac [where k = 79] rd64_eval_frac [where k = 80]
  rd64_eval_frac [where k = 81] rd64_eval_frac [where k = 82] rd64_eval_frac [where k = 83]
  rd64_eval_frac [where k = 84] rd64_eval_frac [where k = 85] rd64_eval_frac [where k = 86]
  rd64_eval_frac [where k = 87] rd64_eval_frac [where k = 88] rd64_eval_frac [where k = 89]
  rd64_eval_frac [where k = 90] rd64_eval_frac [where k = 91] rd64_eval_frac [where k = 92]
  rd64_eval_frac [where k = 93] rd64_eval_frac [where k = 94] rd64_eval_frac [where k = 95]
  rd64_eval_frac [where k = 96] rd64_eval_frac [where k = 97] rd64_eval_frac [where k = 98]
  rd64_eval_frac [where k = 99] rd64_eval_frac [where k = 100] rd64_eval_frac [where k = 101]
  rd64_eval_frac [where k = 102] rd64_eval_frac [where k = 103] rd64_eval_frac [where k = 104]
  rd64_eval_frac [where k = 105] rd64_eval_frac [where k = 106] rd64_eval_frac [where k = 107]
  rd64_eval_frac [where k = 108] rd64_eval_frac [where k = 109] rd64_eval_frac [where k = 110]

lemmas rd64_inv_binades =
  rd64_eval_inv [where k = 0] rd64_eval_inv [where k = 1] rd64_eval_inv [where k = 2]
  rd64_eval_inv [where k = 3] rd64_eval_inv [where k = 4] rd64_eval_inv [where k = 5]
  rd64_eval_inv [where k = 6] rd64_eval_inv [where k = 7] rd64_eval_inv [where k = 8]
  rd64_eval_inv [where k = 9] rd64_eval_inv [where k = 10] rd64_eval_inv [where k = 11]
  rd64_eval_inv [where k = 12] rd64_eval_inv [where k = 13] rd64_eval_inv [where k = 14]
  rd64_eval_inv [where k = 15] rd64_eval_inv [where k = 16] rd64_eval_inv [where k = 17]
  rd64_eval_inv [where k = 18] rd64_eval_inv [where k = 19] rd64_eval_inv [where k = 20]
  rd64_eval_inv [where k = 21] rd64_eval_inv [where k = 22] rd64_eval_inv [where k = 23]
  rd64_eval_inv [where k = 24] rd64_eval_inv [where k = 25] rd64_eval_inv [where k = 26]
  rd64_eval_inv [where k = 27] rd64_eval_inv [where k = 28] rd64_eval_inv [where k = 29]
  rd64_eval_inv [where k = 30] rd64_eval_inv [where k = 31] rd64_eval_inv [where k = 32]
  rd64_eval_inv [where k = 33] rd64_eval_inv [where k = 34] rd64_eval_inv [where k = 35]
  rd64_eval_inv [where k = 36] rd64_eval_inv [where k = 37] rd64_eval_inv [where k = 38]
  rd64_eval_inv [where k = 39] rd64_eval_inv [where k = 40] rd64_eval_inv [where k = 41]
  rd64_eval_inv [where k = 42] rd64_eval_inv [where k = 43] rd64_eval_inv [where k = 44]
  rd64_eval_inv [where k = 45] rd64_eval_inv [where k = 46] rd64_eval_inv [where k = 47]
  rd64_eval_inv [where k = 48] rd64_eval_inv [where k = 49] rd64_eval_inv [where k = 50]
  rd64_eval_inv [where k = 51] rd64_eval_inv [where k = 52] rd64_eval_inv [where k = 53]
  rd64_eval_inv [where k = 54] rd64_eval_inv [where k = 55] rd64_eval_inv [where k = 56]
  rd64_eval_inv [where k = 57] rd64_eval_inv [where k = 58] rd64_eval_inv [where k = 59]
  rd64_eval_inv [where k = 60] rd64_eval_inv [where k = 61] rd64_eval_inv [where k = 62]
  rd64_eval_inv [where k = 63] rd64_eval_inv [where k = 64] rd64_eval_inv [where k = 65]
  rd64_eval_inv [where k = 66] rd64_eval_inv [where k = 67] rd64_eval_inv [where k = 68]
  rd64_eval_inv [where k = 69] rd64_eval_inv [where k = 70] rd64_eval_inv [where k = 71]
  rd64_eval_inv [where k = 72] rd64_eval_inv [where k = 73] rd64_eval_inv [where k = 74]
  rd64_eval_inv [where k = 75] rd64_eval_inv [where k = 76] rd64_eval_inv [where k = 77]
  rd64_eval_inv [where k = 78] rd64_eval_inv [where k = 79] rd64_eval_inv [where k = 80]
  rd64_eval_inv [where k = 81] rd64_eval_inv [where k = 82] rd64_eval_inv [where k = 83]
  rd64_eval_inv [where k = 84] rd64_eval_inv [where k = 85] rd64_eval_inv [where k = 86]
  rd64_eval_inv [where k = 87] rd64_eval_inv [where k = 88] rd64_eval_inv [where k = 89]
  rd64_eval_inv [where k = 90] rd64_eval_inv [where k = 91] rd64_eval_inv [where k = 92]
  rd64_eval_inv [where k = 93] rd64_eval_inv [where k = 94] rd64_eval_inv [where k = 95]
  rd64_eval_inv [where k = 96] rd64_eval_inv [where k = 97] rd64_eval_inv [where k = 98]
  rd64_eval_inv [where k = 99] rd64_eval_inv [where k = 100] rd64_eval_inv [where k = 101]
  rd64_eval_inv [where k = 102] rd64_eval_inv [where k = 103] rd64_eval_inv [where k = 104]
  rd64_eval_inv [where k = 105] rd64_eval_inv [where k = 106] rd64_eval_inv [where k = 107]
  rd64_eval_inv [where k = 108] rd64_eval_inv [where k = 109] rd64_eval_inv [where k = 110]

lemmas rd64_num = rd64_uminus rd64_numeral rd64_frac_binades rd64_inv_binades
  rne_numeral rne_one rne_zero rne_frac rne_inv rne_uminus

lemmas dbl_eval = dadd_def dsub_def dmul_def ddiv_def dabs_def d_of_int_def eps9_def
  dbl_eq_iff dbl_le_iff dbl_less_iff rd64_num

lemma eps9_value: "dval eps9 = 4835703278458517 / 2 ^ 82"
  by (simp add: eps9_def rd64_num)

lemma eps9_pos: "dbl 0 < eps9"
  by (simp add: dval_pos_iff eps9_value)

subsection \<open>Vector access and traversal\<close>

lemma elem_at_Some_iff:
  "elem_at xs i = Some v \<longleftrightarrow> 0 \<le> i \<and> i < int (length xs) \<and> v = xs ! nat i"
  by (auto simp: elem_at_def)

lemma elem_at_in_range: "0 \<le> i \<Longrightarrow> i < int (length xs) \<Longrightarrow> elem_at xs i = Some (xs ! nat i)"
  by (simp add: elem_at_def)

lemma those_map_Some:
  "those (map f xs) = Some ys \<Longrightarrow>
     length ys = length xs \<and> (\<forall>i < length xs. f (xs ! i) = Some (ys ! i))"
proof (induction xs arbitrary: ys)
  case Nil
  then show ?case by simp
next
  case (Cons a xs)
  from Cons.prems obtain v vs where a: "f a = Some v" and vs: "those (map f xs) = Some vs"
    and ys: "ys = v # vs"
    by (auto split: option.splits)
  from Cons.IH [OF vs] have len: "length vs = length xs"
    and nth: "\<And>i. i < length xs \<Longrightarrow> f (xs ! i) = Some (vs ! i)"
    by simp_all
  show ?case
  proof (intro conjI allI impI)
    show "length ys = length (a # xs)" by (simp add: ys len)
  next
    fix i assume "i < length (a # xs)"
    then show "f ((a # xs) ! i) = Some (ys ! i)"
      by (cases i) (simp_all add: ys a nth)
  qed
qed

lemma those_map_total:
  "(\<And>x. x \<in> set xs \<Longrightarrow> \<exists>v. f x = Some v) \<Longrightarrow> \<exists>ys. those (map f xs) = Some ys"
proof (induction xs)
  case Nil
  then show ?case by simp
next
  case (Cons a xs)
  then obtain v where "f a = Some v" by force
  moreover from Cons obtain vs where "those (map f xs) = Some vs" by force
  ultimately show ?case by simp
qed

lemma upto_from_0_nth: "i < nat n \<Longrightarrow> [0..n - 1] ! i = int i"
  by (simp add: nth_upto)

lemma upto_from_0_length: "length [0..n - 1] = nat n"
  by simp

subsection \<open>build_bandwidth_matrix\<close>

lemma cell_bandwidth_in_range:
  assumes "0 \<le> x" "x < int (length uav_phi)" "0 \<le> y" "y < int (length (uav_phi ! nat x))"
    and "length uav_b = length uav_phi" "length (uav_b ! nat x) = length (uav_phi ! nat x)"
  shows "cell_bandwidth uav_b uav_phi t x y =
           Some (let tau = int32 (uav_phi ! nat x ! nat y + t) smod 10; b = uav_b ! nat x ! nat y
                 in if 3 \<le> tau \<and> tau \<le> 6 then b
                    else if tau = 2 \<or> tau = 7 then ddiv b (dbl 2) else dbl 0)"
  using assms by (simp add: cell_bandwidth_def elem_at_def Let_def)

lemma those_map_upto_Some:
  assumes "those (map f [0..n - 1]) = Some ys" "0 \<le> i" "i < n"
  shows "f i = Some (ys ! nat i)" and "length ys = nat n"
proof -
  from those_map_Some [OF assms(1)] have len: "length ys = nat n"
    and nth: "\<And>k. k < nat n \<Longrightarrow> f ([0..n - 1] ! k) = Some (ys ! k)"
    by simp_all
  show "length ys = nat n" by (rule len)
  have "nat i < nat n" using assms(2,3) by simp
  from nth [OF this] show "f i = Some (ys ! nat i)"
    using assms(2,3) by (simp add: nth_upto)
qed

lemma smod_nonneg: "0 \<le> k \<Longrightarrow> k smod 10 = k mod (10 :: int)"
  by (cases "k = 0") (simp_all add: smod_int_alt_def sgn_if)

lemma int32_in_range: "0 \<le> k \<Longrightarrow> k < 2 ^ 31 \<Longrightarrow> int32 k = k"
  by (simp add: int32_def)

text \<open>Halving a double is exact above the subnormal range.\<close>

lemma ddiv_two_exact:
  assumes "2 powr (- 1021) \<le> \<bar>dval b\<bar>"
  shows "dval (ddiv b (dbl 2)) = dval b / 2"
proof -
  define x where "x = dval b"
  define e where "e = binade x"
  have "(0::real) < 2 powr (- 1021)" by simp
  with assms have x0: "x \<noteq> 0" unfolding x_def by linarith
  have rx: "rd64 x = x" by (simp add: x_def)
  have "- 1021 \<le> log 2 \<bar>x\<bar>"
    using assms x0 by (simp add: x_def le_log_iff)
  then have "(- 1021 :: int) \<le> \<lfloor>log 2 \<bar>x\<bar>\<rfloor>"
    by (simp only: le_floor_iff of_int_minus of_int_numeral)
  then have e: "- 1073 \<le> e" unfolding e_def binade_def by linarith
  define n where "n = rne (x / 2 powr of_int e)"
  have xn: "x = of_int n * 2 powr of_int e"
    using rx x0 by (simp add: rd64_def n_def e_def)
  have lt: "\<bar>x\<bar> < 2 powr of_int (e + 53)" unfolding e_def by (rule binade_bounds(1) [OF x0])
  have pw: "2 powr of_int (e + 53) = (2::real) ^ 53 * 2 powr of_int e" by (simp add: powr_add)
  have absx: "\<bar>x\<bar> = \<bar>real_of_int n\<bar> * 2 powr of_int e"
    by (subst xn) (simp add: abs_mult)
  from lt have "\<bar>real_of_int n\<bar> * 2 powr of_int e < (2::real) ^ 53 * 2 powr of_int e"
    unfolding pw absx .
  then have "\<bar>real_of_int n\<bar> < 2 ^ 53" by simp
  then have n: "\<bar>n\<bar> < 2 ^ 53"
    by (metis of_int_abs of_int_less_iff of_int_numeral of_int_power)
  have half: "x / 2 = of_int n * 2 powr of_int (e - 1)"
    by (subst xn) (simp add: powr_diff)
  have "rd64 (of_int n * 2 powr of_int (e - 1)) = of_int n * 2 powr of_int (e - 1)"
    by (rule rd64_exact [OF n]) (use e in simp)
  then have "rd64 (x / 2) = x / 2" by (simp only: half)
  moreover have "rd64 2 = 2" using rd64_of_int [of 2] by simp
  ultimately show ?thesis by (simp add: ddiv_def x_def)
qed

text \<open>
  Claim C5, as amended. On a grid of \<open>M\<close> by \<open>N\<close> cells whose base bandwidths and phases
  are given as \<open>M\<close> rows of \<open>N\<close> entries, build_bandwidth_matrix returns a capacity field,
  and for every \<open>t\<close> in \<open>[0, T)\<close>, \<open>x\<close> in \<open>[0, M)\<close> and \<open>y\<close> in \<open>[0, N)\<close> its entry is the
  base bandwidth of the cell when \<open>tau\<close> lies in \<open>[3, 6]\<close>, the base bandwidth divided by 2
  in double arithmetic when \<open>tau\<close> is 2 or 7, and 0 otherwise; so every entry is one of
  these three values. Here \<open>tau\<close> is the remainder of C++ of the 32-bit sum \<open>phase + t\<close> by
  10: it is \<open>(phase + t) mod 10\<close> when \<open>0 \<le> phase + t < 2\<^sup>3\<^sup>1\<close>, and for a negative sum it is
  negative or zero, so that the entry is 0. The division by 2 is exact for a base
  bandwidth of magnitude at least \<open>2\<^sup>-\<^sup>1\<^sup>0\<^sup>2\<^sup>1\<close>.
\<close>

theorem build_bandwidth_matrix_entries:
  assumes T: "0 \<le> T"
    and b_rows: "length uav_b = nat M" and b_cols: "list_all (\<lambda>r. length r = nat N) uav_b"
    and phi_rows: "length uav_phi = nat M" and phi_cols: "list_all (\<lambda>r. length r = nat N) uav_phi"
    and M: "0 \<le> M" and N: "0 \<le> N"
  shows "\<exists>g'. build_bandwidth_matrix M N T uav_b uav_phi g = Some g' \<and>
           (\<forall>t x y. 0 \<le> t \<and> t < T \<and> 0 \<le> x \<and> x < M \<and> 0 \<le> y \<and> y < N \<longrightarrow>
              (let phi = uav_phi ! nat x ! nat y;
                   tau = int32 (phi + t) smod 10;
                   base = uav_b ! nat x ! nat y;
                   v = g_pre_bw g' ! nat t ! nat x ! nat y
               in (0 \<le> phi + t \<and> phi + t < 2 ^ 31 \<longrightarrow> tau = (phi + t) mod 10) \<and>
                  (3 \<le> tau \<and> tau \<le> 6 \<longrightarrow> v = base) \<and>
                  (tau = 2 \<or> tau = 7 \<longrightarrow> v = ddiv base (dbl 2)) \<and>
                  (tau < 2 \<or> 7 < tau \<longrightarrow> v = dbl 0) \<and>
                  (v = dbl 0 \<or> v = ddiv base (dbl 2) \<or> v = base) \<and>
                  (2 powr (- 1021) \<le> \<bar>dval base\<bar> \<longrightarrow> dval (ddiv base (dbl 2)) = dval base / 2)))"
proof -
  let ?val = "\<lambda>t x y. (let tau = int32 (uav_phi ! nat x ! nat y + t) smod 10; b = uav_b ! nat x ! nat y
                 in if 3 \<le> tau \<and> tau \<le> 6 then b
                    else if tau = 2 \<or> tau = 7 then ddiv b (dbl 2) else dbl 0)"
  have cell: "cell_bandwidth uav_b uav_phi t x y = Some (?val t x y)"
    if "0 \<le> x" "x < M" "0 \<le> y" "y < N" for t x y
  proof -
    have x: "nat x < length uav_phi" "nat x < length uav_b" using that b_rows phi_rows by simp_all
    then have "length (uav_phi ! nat x) = nat N" "length (uav_b ! nat x) = nat N"
      using b_cols phi_cols by (simp_all add: list_all_length)
    then show ?thesis
      using that b_rows phi_rows by (intro cell_bandwidth_in_range) simp_all
  qed
  let ?row = "\<lambda>t x. those (map (\<lambda>y. cell_bandwidth uav_b uav_phi t x y) [0..N - 1])"
  let ?plane = "\<lambda>t. those (map (\<lambda>x. ?row t x) [0..M - 1])"
  have row: "\<exists>r. ?row t x = Some r" if "0 \<le> x" "x < M" for t x
    by (rule those_map_total) (use that cell in auto)
  have plane: "\<exists>p. ?plane t = Some p" for t
    by (rule those_map_total) (use row in auto)
  have "\<exists>tbl. those (map ?plane [0..T - 1]) = Some tbl"
    by (rule those_map_total) (use plane in auto)
  then obtain tbl where tbl: "those (map ?plane [0..T - 1]) = Some tbl" ..
  have build: "build_bandwidth_matrix M N T uav_b uav_phi g = Some (g\<lparr>g_pre_bw := tbl\<rparr>)"
    using T M N tbl by (simp add: build_bandwidth_matrix_def)
  have entry: "tbl ! nat t ! nat x ! nat y = ?val t x y"
    if "0 \<le> t" "t < T" "0 \<le> x" "x < M" "0 \<le> y" "y < N" for t x y
  proof -
    have p: "?plane t = Some (tbl ! nat t)"
      using those_map_upto_Some(1) [OF tbl that(1,2)] .
    have r: "?row t x = Some (tbl ! nat t ! nat x)"
      using those_map_upto_Some(1) [OF p that(3,4)] .
    have "cell_bandwidth uav_b uav_phi t x y = Some (tbl ! nat t ! nat x ! nat y)"
      using those_map_upto_Some(1) [OF r that(5,6)] .
    with cell [OF that(3-6)] show ?thesis by simp
  qed
  show ?thesis
  proof (intro exI conjI allI impI)
    show "build_bandwidth_matrix M N T uav_b uav_phi g = Some (g\<lparr>g_pre_bw := tbl\<rparr>)"
      by (rule build)
  next
    fix t x y
    assume "0 \<le> t \<and> t < T \<and> 0 \<le> x \<and> x < M \<and> 0 \<le> y \<and> y < N"
    then have "tbl ! nat t ! nat x ! nat y = ?val t x y" by (intro entry) simp_all
    then show "let phi = uav_phi ! nat x ! nat y;
                   tau = int32 (phi + t) smod 10;
                   base = uav_b ! nat x ! nat y;
                   v = g_pre_bw (g\<lparr>g_pre_bw := tbl\<rparr>) ! nat t ! nat x ! nat y
               in (0 \<le> phi + t \<and> phi + t < 2 ^ 31 \<longrightarrow> tau = (phi + t) mod 10) \<and>
                  (3 \<le> tau \<and> tau \<le> 6 \<longrightarrow> v = base) \<and>
                  (tau = 2 \<or> tau = 7 \<longrightarrow> v = ddiv base (dbl 2)) \<and>
                  (tau < 2 \<or> 7 < tau \<longrightarrow> v = dbl 0) \<and>
                  (v = dbl 0 \<or> v = ddiv base (dbl 2) \<or> v = base) \<and>
                  (2 powr (- 1021) \<le> \<bar>dval base\<bar> \<longrightarrow> dval (ddiv base (dbl 2)) = dval base / 2)"
      by (auto simp: Let_def smod_nonneg int32_in_range ddiv_two_exact)
  qed
qed

subsection \<open>build_lookup_tables\<close>

lemma rd64_2 [simp]: "rd64 2 = 2"
  using rd64_of_int [of 2] by simp

lemma rd64_10 [simp]: "rd64 10 = 10"
  using rd64_of_int [of 10] by simp

lemma rd64_1 [simp]: "rd64 1 = 1"
  using rd64_of_int [of 1] by simp

















subsection \<open>Candidate lists\<close>

lemma select_diverse_length_lower: "length final \<le> length (select_diverse top_k rest final)"
proof (induction rest arbitrary: final)
  case Nil
  then show ?case by simp
next
  case (Cons c rest)
  have "length final \<le> length (select_diverse top_k rest final)" by (rule Cons.IH)
  moreover have "length final \<le> length (select_diverse top_k rest (final @ [c]))"
    using Cons.IH [of "final @ [c]"] by simp
  ultimately show ?case by simp
qed

lemma select_diverse_length_top_k:
  "int (length final) \<le> top_k \<Longrightarrow> int (length (select_diverse top_k rest final)) \<le> top_k"
proof (induction rest arbitrary: final)
  case Nil
  then show ?case by simp
next
  case (Cons c rest)
  show ?case
  proof (cases "int (length final) < top_k")
    case True
    then have "int (length (final @ [c])) \<le> top_k" by simp
    from Cons.IH [OF this] Cons.IH [OF Cons.prems] True show ?thesis by simp
  next
    case False
    with Cons.prems show ?thesis by simp
  qed
qed

lemma select_diverse_length_upper:
  "length (select_diverse top_k rest final) \<le> length final + length rest"
proof (induction rest arbitrary: final)
  case Nil
  then show ?case by simp
next
  case (Cons c rest)
  have "length (select_diverse top_k rest final) \<le> length final + length rest" by (rule Cons.IH)
  moreover have "length (select_diverse top_k rest (final @ [c])) \<le> length final + 1 + length rest"
    using Cons.IH [of "final @ [c]"] by simp
  ultimately show ?case by simp
qed

lemma fold_opt_append_length:
  assumes step: "\<And>a acc acc'. f a acc = Some acc' \<Longrightarrow> length acc' \<le> length acc + 1"
  shows "fold_opt f xs acc = Some acc' \<Longrightarrow> length acc' \<le> length acc + length xs"
proof (induction xs arbitrary: acc)
  case Nil
  then show ?case by simp
next
  case (Cons a xs)
  from Cons.prems obtain acc1 where a: "f a acc = Some acc1" and r: "fold_opt f xs acc1 = Some acc'"
    by (auto split: option.splits)
  from step [OF a] Cons.IH [OF r] show ?case by simp
qed

lemma raw_candidates_length:
  assumes "raw_candidates g T W fl = Some raw"
  shows "int (length raw) \<le> (if flow_m1 fl \<le> flow_m2 fl \<and> flow_n1 fl \<le> flow_n2 fl
            then (flow_m2 fl - flow_m1 fl + 1) * (flow_n2 fl - flow_n1 fl + 1) else 0)"
proof -
  let ?cells = "List.product [flow_m1 fl..flow_m2 fl] [flow_n1 fl..flow_n2 fl]"
  have "length raw \<le> length ([] :: CandidateInfo list) + length ?cells"
    using assms unfolding raw_candidates_def
    by (rule fold_opt_append_length [rotated]) (auto split: Option.bind_splits if_splits)
  then have le: "length raw \<le> nat (flow_m2 fl - flow_m1 fl + 1) * nat (flow_n2 fl - flow_n1 fl + 1)"
    by simp
  show ?thesis
  proof (cases "flow_m1 fl \<le> flow_m2 fl \<and> flow_n1 fl \<le> flow_n2 fl")
    case True
    then have "int (nat (flow_m2 fl - flow_m1 fl + 1) * nat (flow_n2 fl - flow_n1 fl + 1)) =
                 (flow_m2 fl - flow_m1 fl + 1) * (flow_n2 fl - flow_n1 fl + 1)"
      by simp
    moreover from le have "int (length raw) \<le>
        int (nat (flow_m2 fl - flow_m1 fl + 1) * nat (flow_n2 fl - flow_n1 fl + 1))"
      by (rule iffD2 [OF of_nat_le_iff])
    ultimately show ?thesis using True by simp
  next
    case False
    then have "nat (flow_m2 fl - flow_m1 fl + 1) = 0 \<or> nat (flow_n2 fl - flow_n1 fl + 1) = 0"
      by auto
    then have "nat (flow_m2 fl - flow_m1 fl + 1) * nat (flow_n2 fl - flow_n1 fl + 1) = 0"
      by auto
    with le False show ?thesis by simp
  qed
qed

lemma flow_candidates_size:
  assumes "flow_candidates g T W fl = Some (cs, slots)"
  shows "\<exists>raw. raw_candidates g T W fl = Some raw \<and>
           1 \<le> length cs \<and> length cs \<le> 8 \<and> length cs \<le> length raw \<and>
           int (length cs) \<le> (flow_m2 fl - flow_m1 fl + 1) * (flow_n2 fl - flow_n1 fl + 1) \<and>
           length slots = length cs"
proof -
  from assms obtain raw where raw: "raw_candidates g T W fl = Some raw"
    by (auto simp: flow_candidates_def split: Option.bind_splits)
  define sorted_raw where "sorted_raw = sort_key (\<lambda>c. - dval (cand_potential c)) raw"
  define top_k where "top_k = max 2 (min 8 (min ((flow_m2 fl - flow_m1 fl + 1) * (flow_n2 fl - flow_n1 fl + 1)) (int (length sorted_raw))))"
  from assms raw obtain first where first: "elem_at sorted_raw 0 = Some first"
    and cs: "cs = select_diverse top_k (tl sorted_raw) [first]"
    and slots: "those (map (candidate_slots g T W fl) cs) = Some slots"
    by (auto simp: flow_candidates_def Let_def sorted_raw_def top_k_def split: Option.bind_splits)
  from first have ne: "sorted_raw \<noteq> []" by (auto simp: elem_at_def)
  then have raw_ne: "raw \<noteq> []" and len_sorted: "length sorted_raw = length raw"
    by (auto simp: sorted_raw_def)
  have lower: "1 \<le> length cs"
    using select_diverse_length_lower [of "[first]" top_k "tl sorted_raw"] by (simp add: cs)
  have "int (length [first]) \<le> top_k" by (simp add: top_k_def)
  from select_diverse_length_top_k [OF this] have le_k: "int (length cs) \<le> top_k"
    by (simp add: cs)
  then have le8: "length cs \<le> 8" by (simp add: top_k_def)
  have le_raw: "length cs \<le> length raw"
    using select_diverse_length_upper [of top_k "tl sorted_raw" "[first]"] ne
    by (simp add: cs len_sorted [symmetric])
  have "0 < int (length raw)" using raw_ne by simp
  with raw_candidates_length [OF raw]
  have "int (length raw) \<le> (flow_m2 fl - flow_m1 fl + 1) * (flow_n2 fl - flow_n1 fl + 1)"
    by (auto split: if_splits)
  with le_raw have le_rect: "int (length cs) \<le> (flow_m2 fl - flow_m1 fl + 1) * (flow_n2 fl - flow_n1 fl + 1)"
    by linarith
  from those_map_Some [OF slots] have "length slots = length cs" by simp
  with raw lower le8 le_raw le_rect show ?thesis by blast
qed

text \<open>
  Claim C1, as amended. When candidate generation completes, the final candidate list of
  every flow has at least 1 and at most 8 entries, no more entries than the rectangle of the
  flow has cells, and no more than the raw candidates that passed the admission filter.
  The bound 2 of the claim is the lower clamp of \<open>top_k\<close>, not of the list: the theorem
  final_candidates_size_counterexample below has a list of a single candidate.
\<close>

theorem final_candidates_size:
  assumes build: "build_smart_candidates flows T M N W g = Some g'" and idx: "idx < length flows"
  shows "\<exists>raw. raw_candidates g T W (flows ! idx) = Some raw \<and>
           1 \<le> length (g_candidates g' ! idx) \<and>
           length (g_candidates g' ! idx) \<le> 8 \<and>
           length (g_candidates g' ! idx) \<le> length raw \<and>
           int (length (g_candidates g' ! idx)) \<le>
              (flow_m2 (flows ! idx) - flow_m1 (flows ! idx) + 1) *
              (flow_n2 (flows ! idx) - flow_n1 (flows ! idx) + 1)"
proof -
  from build obtain per_flow where pf: "those (map (flow_candidates g T W) flows) = Some per_flow"
    and g': "g' = g\<lparr>g_candidates := map fst per_flow, g_time_slots := map snd per_flow\<rparr>"
    by (auto simp: build_smart_candidates_def split: Option.bind_splits)
  from those_map_Some [OF pf] idx have len: "length per_flow = length flows"
    and fc: "flow_candidates g T W (flows ! idx) = Some (per_flow ! idx)"
    by simp_all
  have cs: "g_candidates g' ! idx = fst (per_flow ! idx)"
    using idx len by (simp add: g')
  from fc have "flow_candidates g T W (flows ! idx) = Some (g_candidates g' ! idx, snd (per_flow ! idx))"
    by (simp add: cs)
  from flow_candidates_size [OF this] show ?thesis by blast
qed

subsection \<open>The remaining-capacity table\<close>

lemma capacity_idx_inj:
  assumes eq: "capacity_idx M' N' t x y = capacity_idx M' N' t' x' y'"
    and x: "0 \<le> x" "x < M'" and x': "0 \<le> x'" "x' < M'"
    and y: "0 \<le> y" "y < N'" and y': "0 \<le> y'" "y' < N'"
  shows "t = t' \<and> x = x' \<and> y = y'"
proof -
  from eq have e: "(t * M' + x) * N' + y = (t' * M' + x') * N' + y'"
    by (simp add: capacity_idx_def algebra_simps)
  have "((t * M' + x) * N' + y) mod N' = y" using y by simp
  moreover have "((t' * M' + x') * N' + y') mod N' = y'" using y' by simp
  ultimately have yy: "y = y'" using e by simp
  have "((t * M' + x) * N' + y) div N' = t * M' + x" using y by simp
  moreover have "((t' * M' + x') * N' + y') div N' = t' * M' + x'" using y' by simp
  ultimately have e2: "t * M' + x = t' * M' + x'" using e by simp
  have "(t * M' + x) mod M' = x" using x by simp
  moreover have "(t' * M' + x') mod M' = x'" using x' by simp
  ultimately have xx: "x = x'" using e2 by simp
  have "(t * M' + x) div M' = t" using x by simp
  moreover have "(t' * M' + x') div M' = t'" using x' by simp
  ultimately have "t = t'" using e2 by simp
  with xx yy show ?thesis by simp
qed

lemma init_step_Some:
  assumes "init_step g M' N' (t, x, y) rc = Some rc'"
  shows "\<exists>bw. pre_bw_at g t x y = Some bw \<and> 0 \<le> capacity_idx M' N' t x y \<and>
           capacity_idx M' N' t x y < int (length rc) \<and>
           rc' = rc[nat (capacity_idx M' N' t x y) := bw]"
  using assms by (auto simp: init_step_def store_at_def split: Option.bind_splits if_splits)

lemma init_fold_length:
  "fold_opt (init_step g M' N') trs rc = Some rc' \<Longrightarrow> length rc' = length rc"
proof (induction trs arbitrary: rc)
  case Nil
  then show ?case by simp
next
  case (Cons a trs)
  obtain t x y where a: "a = (t, x, y)" by (cases a)
  from Cons.prems obtain rc1 where s: "init_step g M' N' (t, x, y) rc = Some rc1"
    and r: "fold_opt (init_step g M' N') trs rc1 = Some rc'"
    by (auto simp: a split: option.splits)
  from init_step_Some [OF s] have "length rc1 = length rc" by auto
  with Cons.IH [OF r] show ?case by simp
qed

lemma init_fold_untouched:
  assumes "fold_opt (init_step g M' N') trs rc = Some rc'"
    and "0 \<le> k" and "k \<notin> (\<lambda>(t, x, y). capacity_idx M' N' t x y) ` set trs"
  shows "rc' ! nat k = rc ! nat k"
  using assms
proof (induction trs arbitrary: rc)
  case Nil
  then show ?case by simp
next
  case (Cons a trs)
  obtain t x y where a: "a = (t, x, y)" by (cases a)
  from Cons.prems(1) obtain rc1 where s: "init_step g M' N' (t, x, y) rc = Some rc1"
    and r: "fold_opt (init_step g M' N') trs rc1 = Some rc'"
    by (auto simp: a split: option.splits)
  from init_step_Some [OF s] obtain bw where c: "0 \<le> capacity_idx M' N' t x y"
    and rc1: "rc1 = rc[nat (capacity_idx M' N' t x y) := bw]" by auto
  from Cons.prems(3) have ne: "k \<noteq> capacity_idx M' N' t x y"
    and rest: "k \<notin> (\<lambda>(t, x, y). capacity_idx M' N' t x y) ` set trs"
    by (auto simp: a)
  from ne c Cons.prems(2) have "nat k \<noteq> nat (capacity_idx M' N' t x y)" by simp
  then have "rc1 ! nat k = rc ! nat k" by (simp add: rc1)
  with Cons.IH [OF r Cons.prems(2) rest] show ?case by simp
qed

lemma init_fold_written:
  assumes "fold_opt (init_step g M' N') trs rc = Some rc'"
    and "distinct (map (\<lambda>(t, x, y). capacity_idx M' N' t x y) trs)"
    and "(t, x, y) \<in> set trs"
  shows "pre_bw_at g t x y = Some (rc' ! nat (capacity_idx M' N' t x y))"
  using assms
proof (induction trs arbitrary: rc)
  case Nil
  then show ?case by simp
next
  case (Cons a trs)
  obtain t0 x0 y0 where a: "a = (t0, x0, y0)" by (cases a)
  from Cons.prems(1) obtain rc1 where s: "init_step g M' N' (t0, x0, y0) rc = Some rc1"
    and r: "fold_opt (init_step g M' N') trs rc1 = Some rc'"
    by (auto simp: a split: option.splits)
  from Cons.prems(2) have fresh: "capacity_idx M' N' t0 x0 y0 \<notin> (\<lambda>(t, x, y). capacity_idx M' N' t x y) ` set trs"
    and dist: "distinct (map (\<lambda>(t, x, y). capacity_idx M' N' t x y) trs)"
    by (simp_all add: a)
  show ?case
  proof (cases "(t, x, y) = (t0, x0, y0)")
    case True
    from init_step_Some [OF s] obtain bw where bw: "pre_bw_at g t0 x0 y0 = Some bw"
      and c: "0 \<le> capacity_idx M' N' t0 x0 y0" "capacity_idx M' N' t0 x0 y0 < int (length rc)"
      and rc1: "rc1 = rc[nat (capacity_idx M' N' t0 x0 y0) := bw]" by auto
    from init_fold_untouched [OF r c(1) fresh]
    have "rc' ! nat (capacity_idx M' N' t0 x0 y0) = bw"
      using c by (simp add: rc1)
    with bw True show ?thesis by simp
  next
    case False
    with Cons.prems(3) have "(t, x, y) \<in> set trs" by (auto simp: a)
    from Cons.IH [OF r dist this] show ?thesis .
  qed
qed

lemma grid_cells_distinct:
  "distinct (map (\<lambda>(t, x, y). capacity_idx M' N' t x y)
     (List.product [0..T' - 1] (List.product [0..M' - 1] [0..N' - 1])))"
proof -
  have "distinct (List.product [0..T' - 1] (List.product [0..M' - 1] [0..N' - 1]))"
    by (simp add: distinct_product)
  moreover have "inj_on (\<lambda>(t, x, y). capacity_idx M' N' t x y)
     (set (List.product [0..T' - 1] (List.product [0..M' - 1] [0..N' - 1])))"
    by (rule inj_onI) (auto dest: capacity_idx_inj)
  ultimately show ?thesis by (simp add: distinct_map)
qed

lemma init_remaining_capacity_entry:
  assumes init: "init_remaining_capacity g T' M' N' = Some rc0"
    and t: "0 \<le> t" "t < T'" and x: "0 \<le> x" "x < M'" and y: "0 \<le> y" "y < N'"
  shows "pre_bw_at g t x y = Some (rc0 ! nat (capacity_idx M' N' t x y))"
proof -
  have "(t, x, y) \<in> set (List.product [0..T' - 1] (List.product [0..M' - 1] [0..N' - 1]))"
    using t x y by simp
  from init_fold_written [OF init [unfolded init_remaining_capacity_def] grid_cells_distinct this]
  show ?thesis .
qed

lemma init_remaining_capacity_length:
  "init_remaining_capacity g T' M' N' = Some rc0 \<Longrightarrow> length rc0 = nat (T' * M' * N')"
  using init_fold_length [of g M' N' _ "replicate (nat (T' * M' * N')) (dbl 0)" rc0]
  by (simp add: init_remaining_capacity_def)

subsection \<open>Consuming the slots of a candidate\<close>

lemma dsub_le: "dbl 0 \<le> u \<Longrightarrow> dsub r u \<le> r"
proof -
  assume "dbl 0 \<le> u"
  then have "dval r - dval u \<le> dval r" by (simp add: dval_nonneg_iff)
  from rd64_mono [OF this] show ?thesis by (simp add: dsub_def less_eq_double_def)
qed

lemma dsub_nonneg: "u \<le> r \<Longrightarrow> dbl 0 \<le> dsub r u"
  by (simp add: dsub_def less_eq_double_def rd64_nonneg)

lemma dsub_mono: "r \<le> r' \<Longrightarrow> dsub r u \<le> dsub r' u"
  by (simp add: dsub_def less_eq_double_def rd64_mono)

lemma dsub_error: "dval (dsub r u) - (dval r - dval u) \<le> \<bar>dval r - dval u\<bar> / 2 ^ 53"
proof -
  have "rd64 (dval r - dval u) - (dval r - dval u) \<le> \<bar>rd64 (dval r - dval u) - (dval r - dval u)\<bar>"
    by (rule abs_ge_self)
  also have "\<dots> \<le> \<bar>dval r - dval u\<bar> / 2 ^ 53"
    by (rule rd64_sub_error) (rule rd64_dval)+
  finally show ?thesis by (simp only: dsub_def dval_dbl)
qed

lemma draw_chain_append:
  "draw_chain r (us @ vs) = (case draw_chain r us of None \<Rightarrow> None | Some r' \<Rightarrow> draw_chain r' vs)"
  by (induction us arbitrary: r) simp_all

lemma draw_items_append:
  "draw_items M' N' rc (as @ bs) =
     (case draw_items M' N' rc as of None \<Rightarrow> None | Some rc' \<Rightarrow> draw_items M' N' rc' bs)"
  by (induction as arbitrary: rc) (simp_all add: Let_def split: option.splits)

lemma draw_items_length: "draw_items M' N' rc items = Some rc' \<Longrightarrow> length rc' = length rc"
proof (induction items arbitrary: rc)
  case Nil
  then show ?case by simp
next
  case (Cons it items)
  from Cons.prems obtain avail where
    "draw_items M' N'
       (rc[nat (capacity_idx M' N' (item_t it) (item_x it) (item_y it)) := dsub avail (item_z it)])
       items = Some rc'"
    by (auto simp: Let_def split: option.splits if_splits)
  from Cons.IH [OF this] show ?case by simp
qed

lemma draw_chain_nonneg: "draw_chain r us = Some r' \<Longrightarrow> dbl 0 \<le> r \<Longrightarrow> dbl 0 \<le> r'"
proof (induction us arbitrary: r)
  case Nil
  then show ?case by simp
next
  case (Cons u us)
  from Cons.prems(1) have u: "u \<le> r" and rest: "draw_chain (dsub r u) us = Some r'"
    by (auto split: if_splits)
  from Cons.IH [OF rest dsub_nonneg [OF u]] show ?case .
qed

text \<open>
  The exact sum of the amounts of a chain is at most what the chain took, up to one
  rounding of relative size \<open>2\<^sup>-\<^sup>5\<^sup>3\<close> for each amount.
\<close>

lemma draw_chain_sum:
  assumes "draw_chain r us = Some r'" and "dbl 0 \<le> r"
  shows "sum_list (map dval us) \<le> dval r - dval r' + real (length us) * dval r / 2 ^ 53"
  using assms
proof (induction us arbitrary: r)
  case Nil
  then show ?case by simp
next
  case (Cons u us)
  from Cons.prems(1) have u0: "dbl 0 < u" and u: "u \<le> r"
    and rest: "draw_chain (dsub r u) us = Some r'"
    by (auto split: if_splits)
  define r1 where "r1 = dsub r u"
  have r1_nn: "dbl 0 \<le> r1" unfolding r1_def by (rule dsub_nonneg [OF u])
  have "dbl 0 \<le> u" using u0 by simp
  from dsub_le [OF this] have r1_le: "dval r1 \<le> dval r"
    by (simp add: r1_def less_eq_double_def)
  have r0: "0 \<le> dval r" using Cons.prems(2) by (simp add: dval_nonneg_iff)
  have ur: "dval u \<le> dval r" using u by (simp add: less_eq_double_def)
  have up: "0 < dval u" using u0 by (simp add: dval_pos_iff)
  from dsub_error [of r u] ur have "dval r1 - (dval r - dval u) \<le> (dval r - dval u) / 2 ^ 53"
    by (simp add: r1_def)
  also have "\<dots> \<le> dval r / 2 ^ 53" using up by (simp add: divide_right_mono)
  finally have step: "dval u \<le> dval r - dval r1 + dval r / 2 ^ 53" by simp
  from Cons.IH [OF rest [folded r1_def] r1_nn]
  have "sum_list (map dval us) \<le> dval r1 - dval r' + real (length us) * dval r1 / 2 ^ 53" .
  also have "real (length us) * dval r1 / 2 ^ 53 \<le> real (length us) * dval r / 2 ^ 53"
    using r1_le by (intro divide_right_mono mult_left_mono) simp_all
  finally have "sum_list (map dval us) \<le> dval r1 - dval r' + real (length us) * dval r / 2 ^ 53"
    by simp
  with step show ?case by (simp add: field_simps)
qed

text \<open>
  One pass of consume_slots appends items to the schedule; they are taken out of the
  table and out of \<open>remaining_need\<close>.
\<close>

lemma consume_slots_draws:
  "consume_slots M' N' ux uy slots (rc, need, sched) = Some (rc', need', sched') \<Longrightarrow>
     \<exists>items. sched' = sched @ items \<and> draw_items M' N' rc items = Some rc' \<and>
        draw_chain need (map item_z items) = Some need'"
proof (induction slots arbitrary: rc need sched)
  case Nil
  then show ?case by simp
next
  case (Cons slot slots)
  show ?case
  proof (cases "need \<le> eps9")
    case True
    with Cons.prems show ?thesis by simp
  next
    case False
    define cidx where "cidx = capacity_idx M' N' (slot_t slot) ux uy"
    from Cons.prems False obtain avail where avail: "elem_at rc cidx = Some avail"
      by (cases "elem_at rc cidx") (simp_all add: cidx_def)
    show ?thesis
    proof (cases "avail > eps9")
      case True
      define use where "use = min avail need"
      define it where "it = \<lparr>item_t = slot_t slot, item_x = ux, item_y = uy, item_z = use\<rparr>"
      from Cons.prems False avail True
      have rest: "consume_slots M' N' ux uy slots
                    (rc[nat cidx := dsub avail use], dsub need use, sched @ [it])
                  = Some (rc', need', sched')"
        by (simp add: cidx_def [symmetric] Let_def use_def it_def)
      from Cons.IH [OF rest] obtain items where
        s: "sched' = (sched @ [it]) @ items"
        and d: "draw_items M' N' (rc[nat cidx := dsub avail use]) items = Some rc'"
        and c: "draw_chain (dsub need use) (map item_z items) = Some need'"
        by blast
      have use: "dbl 0 < use" "use \<le> avail" "use \<le> need"
        using True False eps9_pos by (auto simp: use_def min_def)
      have "draw_items M' N' rc (it # items) = Some rc'"
        using avail use d by (simp add: it_def cidx_def [symmetric])
      moreover have "draw_chain need (map item_z (it # items)) = Some need'"
        using use c by (simp add: it_def)
      moreover have "sched' = sched @ it # items" using s by simp
      ultimately show ?thesis by blast
    next
      case no: False
      from Cons.prems False avail no
      have "consume_slots M' N' ux uy slots (rc, need, sched) = Some (rc', need', sched')"
        by (simp add: cidx_def [symmetric])
      from Cons.IH [OF this] show ?thesis .
    qed
  qed
qed

subsection \<open>The allocation of one flow and the loop over the flows\<close>

lemma consume_candidate_draws:
  "consume_candidate g M' N' idx cand_idx (rc, need, sched) = Some (rc', need', sched') \<Longrightarrow>
     \<exists>items. sched' = sched @ items \<and> draw_items M' N' rc items = Some rc' \<and>
        draw_chain need (map item_z items) = Some need'"
  by (auto simp: consume_candidate_def split: Option.bind_splits dest: consume_slots_draws)

lemma allocate_one_flow_cases:
  assumes "allocate_one_flow g M' N' fl idx sidx rc schedule = Some (rc', sched')"
  obtains cands rc1 need1 sched1 need2 where
    "elem_at (g_candidates g) idx = Some cands"
    "consume_candidate g M' N' idx (if sidx \<ge> int (length cands) then 0 else sidx)
       (rc, flow_s fl, schedule) = Some (rc1, need1, sched1)"
    "need1 > dmul (flow_s fl) (dbl 0.1) \<and> length cands > 1"
    "consume_candidate g M' N' idx
       (((if sidx \<ge> int (length cands) then 0 else sidx) + 1) mod int (length cands))
       (rc1, need1, sched1) = Some (rc', need2, sched')"
  | cands need1 where
    "elem_at (g_candidates g) idx = Some cands"
    "consume_candidate g M' N' idx (if sidx \<ge> int (length cands) then 0 else sidx)
       (rc, flow_s fl, schedule) = Some (rc', need1, sched')"
    "\<not> (need1 > dmul (flow_s fl) (dbl 0.1) \<and> length cands > 1)"
proof (cases "elem_at (g_candidates g) idx")
  case None
  with assms show ?thesis by (simp add: allocate_one_flow_def)
next
  case (Some cands)
  define ci where "ci = (if sidx \<ge> int (length cands) then 0 else sidx)"
  show ?thesis
  proof (cases "consume_candidate g M' N' idx ci (rc, flow_s fl, schedule)")
    case None
    with assms Some show ?thesis by (simp add: allocate_one_flow_def ci_def)
  next
    case st1: (Some st1)
    obtain rc1 need1 sched1 where st1_eq: "st1 = (rc1, need1, sched1)" by (cases st1)
    show ?thesis
    proof (cases "need1 > dmul (flow_s fl) (dbl 0.1) \<and> length cands > 1")
      case True
      show ?thesis
      proof (cases "consume_candidate g M' N' idx ((ci + 1) mod int (length cands)) (rc1, need1, sched1)")
        case None
        with assms Some st1 st1_eq True show ?thesis
          by (simp add: allocate_one_flow_def ci_def)
      next
        case st2: (Some st2)
        obtain rc2 need2 sched2 where st2_eq: "st2 = (rc2, need2, sched2)" by (cases st2)
        from assms Some st1 st1_eq True st2 st2_eq have "rc2 = rc'" "sched2 = sched'"
          by (simp_all add: allocate_one_flow_def ci_def)
        with Some st1 st1_eq True st2 st2_eq show ?thesis
          using that(1) [of cands rc1 need1 sched1 need2] by (simp add: ci_def)
      qed
    next
      case False
      with assms Some st1 st1_eq have "rc1 = rc'" "sched1 = sched'"
        by (auto simp: allocate_one_flow_def ci_def split: if_splits)
      with Some st1 st1_eq False show ?thesis
        using that(2) [of cands need1] by (simp add: ci_def)
    qed
  qed
qed

lemma allocate_one_flow_draws:
  assumes "allocate_one_flow g M' N' fl idx sidx rc schedule = Some (rc', sched')"
  shows "\<exists>items need'. sched' = schedule @ items \<and> draw_items M' N' rc items = Some rc' \<and>
           draw_chain (flow_s fl) (map item_z items) = Some need'"
  using assms
proof (cases rule: allocate_one_flow_cases)
  case (1 cands rc1 need1 sched1 need2)
  from consume_candidate_draws [OF 1(2)] obtain items1 where
    a: "sched1 = schedule @ items1" "draw_items M' N' rc items1 = Some rc1"
       "draw_chain (flow_s fl) (map item_z items1) = Some need1"
    by blast
  from consume_candidate_draws [OF 1(4)] obtain items2 where
    b: "sched' = sched1 @ items2" "draw_items M' N' rc1 items2 = Some rc'"
       "draw_chain need1 (map item_z items2) = Some need2"
    by blast
  have "sched' = schedule @ (items1 @ items2)" using a(1) b(1) by simp
  moreover have "draw_items M' N' rc (items1 @ items2) = Some rc'"
    using a(2) b(2) by (simp add: draw_items_append)
  moreover have "draw_chain (flow_s fl) (map item_z (items1 @ items2)) = Some need2"
    using a(3) b(3) by (simp add: draw_chain_append)
  ultimately show ?thesis by blast
next
  case (2 cands need1)
  from consume_candidate_draws [OF 2(2)] show ?thesis by blast
qed

lemma allocate_flow_Some:
  assumes "allocate_flow g M' N' flows solution idx (rc, schedules) = Some (rc', schedules')"
  shows "\<exists>sidx sched'. 0 \<le> idx \<and> idx < int (length flows) \<and> idx < int (length schedules) \<and>
           elem_at solution idx = Some sidx \<and>
           allocate_one_flow g M' N' (flows ! nat idx) idx sidx rc (schedules ! nat idx) = Some (rc', sched') \<and>
           schedules' = schedules[nat idx := sched']"
  using assms
  by (auto simp: allocate_flow_def elem_at_def split: Option.bind_splits if_splits)

lemma fold_opt_append:
  "fold_opt f (xs @ ys) st = (case fold_opt f xs st of None \<Rightarrow> None | Some st' \<Rightarrow> fold_opt f ys st')"
  by (induction xs arbitrary: st) (simp_all split: option.splits)

text \<open>The loop leaves the schedules of the other flows as they are.\<close>

lemma allocate_fold_untouched:
  assumes "fold_opt (allocate_flow g M' N' flows solution) order (rc, schedules) = Some (rc', schedules')"
  shows "length schedules' = length schedules \<and>
         (int j \<notin> set order \<longrightarrow> schedules' ! j = schedules ! j)"
  using assms
proof (induction order arbitrary: rc schedules)
  case Nil
  then show ?case by simp
next
  case (Cons idx order)
  from Cons.prems obtain rc1 schedules1 where
    step: "allocate_flow g M' N' flows solution idx (rc, schedules) = Some (rc1, schedules1)"
    and rest: "fold_opt (allocate_flow g M' N' flows solution) order (rc1, schedules1) = Some (rc', schedules')"
    by (auto split: option.splits)
  from allocate_flow_Some [OF step] obtain sched' where
    idx: "0 \<le> idx" and s1: "schedules1 = schedules[nat idx := sched']"
    by blast
  have "int j \<noteq> idx \<Longrightarrow> schedules1 ! j = schedules ! j"
    using idx by (auto simp: s1)
  with Cons.IH [OF rest] show ?case by (simp add: s1)
qed

text \<open>
  The loop over the flows of \<open>order\<close>, started on empty schedules: the items of these
  flows, in the order of the loop, are taken out of the table, and the items of each flow
  out of its demand.
\<close>

lemma allocate_fold_draws:
  assumes "fold_opt (allocate_flow g M' N' flows solution) order (rc, schedules) = Some (rc', schedules')"
    and "distinct order" and "\<forall>i \<in> set order. 0 \<le> i \<and> schedules ! nat i = []"
  shows "draw_items M' N' rc (concat (map (\<lambda>i. schedules' ! nat i) order)) = Some rc' \<and>
         (\<forall>i \<in> set order. \<exists>need'.
            draw_chain (flow_s (flows ! nat i)) (map item_z (schedules' ! nat i)) = Some need')"
  using assms
proof (induction order arbitrary: rc schedules)
  case Nil
  then show ?case by simp
next
  case (Cons idx order)
  from Cons.prems(1) obtain rc1 schedules1 where
    step: "allocate_flow g M' N' flows solution idx (rc, schedules) = Some (rc1, schedules1)"
    and rest: "fold_opt (allocate_flow g M' N' flows solution) order (rc1, schedules1) = Some (rc', schedules')"
    by (auto split: option.splits)
  from Cons.prems(2) have fresh: "idx \<notin> set order" and dist: "distinct order" by simp_all
  from allocate_flow_Some [OF step] obtain sidx sched' where
    idx: "0 \<le> idx" "idx < int (length schedules)"
    and one: "allocate_one_flow g M' N' (flows ! nat idx) idx sidx rc (schedules ! nat idx) = Some (rc1, sched')"
    and s1: "schedules1 = schedules[nat idx := sched']"
    by blast
  from Cons.prems(3) have empty: "schedules ! nat idx = []" by simp
  from allocate_one_flow_draws [OF one] empty obtain need' where
    d: "draw_items M' N' rc sched' = Some rc1"
    and c: "draw_chain (flow_s (flows ! nat idx)) (map item_z sched') = Some need'"
    by auto
  have "\<forall>i \<in> set order. 0 \<le> i \<and> schedules1 ! nat i = []"
  proof
    fix i assume i: "i \<in> set order"
    with Cons.prems(3) have i0: "0 \<le> i" and e: "schedules ! nat i = []" by simp_all
    from i fresh have "i \<noteq> idx" by auto
    with i0 idx have "nat i \<noteq> nat idx" by simp
    then show "0 \<le> i \<and> schedules1 ! nat i = []" using i0 e by (simp add: s1)
  qed
  from Cons.IH [OF rest dist this] have
    d': "draw_items M' N' rc1 (concat (map (\<lambda>i. schedules' ! nat i) order)) = Some rc'"
    and c': "\<forall>i \<in> set order. \<exists>need'.
            draw_chain (flow_s (flows ! nat i)) (map item_z (schedules' ! nat i)) = Some need'"
    by simp_all
  have "int (nat idx) \<notin> set order" using fresh idx by simp
  with allocate_fold_untouched [OF rest, of "nat idx"]
  have "schedules' ! nat idx = schedules1 ! nat idx" by simp
  also have "\<dots> = sched'" using idx by (simp add: s1)
  finally have mine: "schedules' ! nat idx = sched'" .
  have "draw_items M' N' rc (concat (map (\<lambda>i. schedules' ! nat i) (idx # order))) = Some rc'"
    using d d' by (simp add: mine draw_items_append)
  moreover have "\<forall>i \<in> set (idx # order). \<exists>need'.
            draw_chain (flow_s (flows ! nat i)) (map item_z (schedules' ! nat i)) = Some need'"
    using c c' by (simp add: mine)
  ultimately show ?case by blast
qed

text \<open>
  The items at one \<open>(t, x, y)\<close> among items taken out of a table: they are a chain out
  of any quantity that is at least the entry of the table.
\<close>

lemma draw_items_cell:
  assumes "draw_items M' N' rc items = Some rc'"
    and "0 \<le> capacity_idx M' N' t x y"
    and "rc ! nat (capacity_idx M' N' t x y) \<le> r"
  shows "\<exists>r'. draw_chain r (drawn_at items t x y) = Some r' \<and>
           rc' ! nat (capacity_idx M' N' t x y) \<le> r'"
  using assms(1,3)
proof (induction items arbitrary: rc r)
  case Nil
  then show ?case by (simp add: drawn_at_def)
next
  case (Cons it items)
  let ?k = "nat (capacity_idx M' N' t x y)"
  define cidx where "cidx = capacity_idx M' N' (item_t it) (item_x it) (item_y it)"
  from Cons.prems(1) obtain avail where avail: "elem_at rc cidx = Some avail"
    and u: "dbl 0 < item_z it" "item_z it \<le> avail"
    and rest: "draw_items M' N' (rc[nat cidx := dsub avail (item_z it)]) items = Some rc'"
    by (auto simp: Let_def cidx_def [symmetric] split: option.splits if_splits)
  from avail have c: "0 \<le> cidx" "cidx < int (length rc)" and av: "avail = rc ! nat cidx"
    by (auto simp: elem_at_def split: if_splits)
  show ?case
  proof (cases "at_cell t x y it")
    case True
    then have same: "cidx = capacity_idx M' N' t x y" by (simp add: cidx_def at_cell_def)
    have "item_z it \<le> r" using u(2) Cons.prems(2) by (simp add: av same)
    moreover have "(rc[nat cidx := dsub avail (item_z it)]) ! ?k \<le> dsub r (item_z it)"
      using c Cons.prems(2) by (simp add: same av dsub_mono)
    from Cons.IH [OF rest this] obtain r' where
      "draw_chain (dsub r (item_z it)) (drawn_at items t x y) = Some r'" "rc' ! ?k \<le> r'"
      by blast
    ultimately show ?thesis using True u(1) by (auto simp: drawn_at_def)
  next
    case False
    have "(rc[nat cidx := dsub avail (item_z it)]) ! ?k \<le> r"
    proof (cases "nat cidx = ?k")
      case True
      have "dsub avail (item_z it) \<le> avail" using u(1) by (intro dsub_le) simp
      then show ?thesis using True c Cons.prems(2) by (simp add: av)
    next
      case False
      then show ?thesis using Cons.prems(2) by simp
    qed
    from Cons.IH [OF rest this] False show ?thesis by (simp add: drawn_at_def)
  qed
qed

lemma decode_flows_Some:
  assumes "decode_flows g flows solution order = Some (rc, schedules)"
  shows "\<exists>rc0. g_pre_bw g \<noteq> [] \<and> g_pre_bw g ! 0 \<noteq> [] \<and>
     init_remaining_capacity g (int (length (g_pre_bw g))) (int (length (g_pre_bw g ! 0)))
        (int (length (g_pre_bw g ! 0 ! 0))) = Some rc0 \<and>
     fold_opt (allocate_flow g (int (length (g_pre_bw g ! 0))) (int (length (g_pre_bw g ! 0 ! 0))) flows solution)
        order (rc0, replicate (length flows) []) = Some (rc, schedules)"
  using assms
  by (auto simp: decode_flows_def Let_def elem_at_def split: Option.bind_splits if_splits)

lemma greedy_allocate_Some:
  assumes "greedy_allocate g flows solution = Some (schedules, score)"
  shows "\<exists>rc. decode_flows g flows solution (flow_order flows) = Some (rc, schedules)"
  using assms
  by (auto simp: greedy_allocate_def Let_def split: Option.bind_splits prod.splits)

lemma flow_order_set: "set (flow_order flows) = {0..int (length flows) - 1}"
  by (simp add: flow_order_def)

lemma flow_order_distinct: "distinct (flow_order flows)"
  by (simp add: flow_order_def)

text \<open>The exact sum over the schedules is the exact sum over the items in drawing order.\<close>

lemma delivered_at_concat:
  "delivered_at (concat ss) t x y = (\<Sum>s\<leftarrow>ss. delivered_at s t x y)"
  by (induction ss) (simp_all add: delivered_at_def drawn_at_def)

lemma delivered_at_draw_sequence:
  assumes "length schedules = length flows"
  shows "delivered_at (draw_sequence flows schedules) t x y
           = (\<Sum>schedule\<leftarrow>schedules. delivered_at schedule t x y)"
proof -
  let ?h = "\<lambda>i. delivered_at (schedules ! nat i) t x y"
  have "delivered_at (draw_sequence flows schedules) t x y = sum_list (map ?h (flow_order flows))"
    by (simp add: draw_sequence_def delivered_at_concat comp_def)
  also have "\<dots> = sum ?h (set (flow_order flows))"
    by (rule sum_list_distinct_conv_sum_set [OF flow_order_distinct])
  also have "\<dots> = sum ?h (set [0..int (length flows) - 1])"
    by (simp add: flow_order_set)
  also have "\<dots> = sum_list (map ?h [0..int (length flows) - 1])"
    by (rule sum_list_distinct_conv_sum_set [symmetric]) simp
  also have "map ?h [0..int (length flows) - 1] = map (\<lambda>s. delivered_at s t x y) schedules"
    using assms by (intro nth_equalityI) (simp_all add: nth_upto)
  finally show ?thesis .
qed

text \<open>
  Claim C2, as amended. Within one invocation of greedy_allocate, for every time \<open>t\<close> and
  cell \<open>(x, y)\<close> of the capacity field whose value \<open>c\<close> there is not negative: the amounts
  of the schedule items of all flows at \<open>(t, x, y)\<close>, in the order in which the decoder
  delivers them, are taken one after the other out of \<open>c\<close> by the subtraction of doubles,
  each amount positive and at most what is left when it is taken, and what is left at the
  end is not negative. Their sum as real numbers is at most \<open>c * (1 + n / 2\<^sup>5\<^sup>3)\<close>, where \<open>n\<close>
  is the number of these items: it can exceed \<open>c\<close> by the roundings of the subtractions.
\<close>

theorem greedy_allocate_capacity:
  assumes run: "greedy_allocate g flows solution = Some (schedules, score)"
    and t: "0 \<le> t" "t < int (length (g_pre_bw g))"
    and x: "0 \<le> x" "x < int (length (g_pre_bw g ! 0))"
    and y: "0 \<le> y" "y < int (length (g_pre_bw g ! 0 ! 0))"
    and cap: "dbl 0 \<le> g_pre_bw g ! nat t ! nat x ! nat y"
  shows "pre_bw_at g t x y = Some (g_pre_bw g ! nat t ! nat x ! nat y) \<and>
         (\<exists>r. draw_chain (g_pre_bw g ! nat t ! nat x ! nat y)
                 (drawn_at (draw_sequence flows schedules) t x y) = Some r \<and> dbl 0 \<le> r) \<and>
         (\<Sum>schedule\<leftarrow>schedules. delivered_at schedule t x y)
           \<le> dval (g_pre_bw g ! nat t ! nat x ! nat y)
               * (1 + real (length (drawn_at (draw_sequence flows schedules) t x y)) / 2 ^ 53)"
proof -
  let ?T = "int (length (g_pre_bw g))"
  let ?M = "int (length (g_pre_bw g ! 0))"
  let ?N = "int (length (g_pre_bw g ! 0 ! 0))"
  let ?k = "nat (capacity_idx ?M ?N t x y)"
  let ?cap = "g_pre_bw g ! nat t ! nat x ! nat y"
  let ?us = "drawn_at (draw_sequence flows schedules) t x y"
  from greedy_allocate_Some [OF run] obtain rc where
    dec: "decode_flows g flows solution (flow_order flows) = Some (rc, schedules)" ..
  from decode_flows_Some [OF dec] obtain rc0 where
    init: "init_remaining_capacity g ?T ?M ?N = Some rc0"
    and fold: "fold_opt (allocate_flow g ?M ?N flows solution) (flow_order flows)
                 (rc0, replicate (length flows) []) = Some (rc, schedules)"
    by blast
  have k: "0 \<le> capacity_idx ?M ?N t x y"
    using t x y by (simp add: capacity_idx_def)
  from init_remaining_capacity_entry [OF init t x y]
  have entry: "pre_bw_at g t x y = Some (rc0 ! ?k)" .
  then have val: "rc0 ! ?k = ?cap"
    by (auto simp: pre_bw_at_def elem_at_def split: Option.bind_splits if_splits)
  have "\<forall>i \<in> set (flow_order flows). 0 \<le> i \<and> replicate (length flows) ([] :: ScheduleItem list) ! nat i = []"
    by (auto simp: flow_order_set)
  from allocate_fold_draws [OF fold flow_order_distinct this]
  have "draw_items ?M ?N rc0 (draw_sequence flows schedules) = Some rc"
    by (simp add: draw_sequence_def)
  from draw_items_cell [OF this k, of ?cap] val obtain r where
    chain: "draw_chain ?cap ?us = Some r"
    by auto
  from draw_chain_nonneg [OF chain cap] have r: "dbl 0 \<le> r" .
  from allocate_fold_untouched [OF fold, of 0] have len: "length schedules = length flows" by simp
  have c0: "0 \<le> dval ?cap" using cap by (simp add: dval_nonneg_iff)
  have r0: "0 \<le> dval r" using r by (simp add: dval_nonneg_iff)
  from draw_chain_sum [OF chain cap]
  have "sum_list (map dval ?us) \<le> dval ?cap - dval r + real (length ?us) * dval ?cap / 2 ^ 53" .
  also have "\<dots> \<le> dval ?cap * (1 + real (length ?us) / 2 ^ 53)"
    using r0 by (simp add: field_simps)
  finally have "delivered_at (draw_sequence flows schedules) t x y
                  \<le> dval ?cap * (1 + real (length ?us) / 2 ^ 53)"
    by (simp add: delivered_at_def)
  then have "(\<Sum>schedule\<leftarrow>schedules. delivered_at schedule t x y)
               \<le> dval ?cap * (1 + real (length ?us) / 2 ^ 53)"
    by (simp only: delivered_at_draw_sequence [OF len])
  with entry val chain r show ?thesis by auto
qed

lemma decode_flows_fold:
  assumes "g_pre_bw g \<noteq> []" "g_pre_bw g ! 0 \<noteq> []"
    and "init_remaining_capacity g (int (length (g_pre_bw g))) (int (length (g_pre_bw g ! 0)))
           (int (length (g_pre_bw g ! 0 ! 0))) = Some rc0"
  shows "decode_flows g flows solution order =
           fold_opt (allocate_flow g (int (length (g_pre_bw g ! 0))) (int (length (g_pre_bw g ! 0 ! 0)))
                       flows solution)
             order (rc0, replicate (length flows) [])"
  using assms by (simp add: decode_flows_def elem_at_def Let_def)

text \<open>
  Claim C3, as amended. Let flow \<open>i\<close> of non-negative demand \<open>s\<close> come after the flows
  \<open>pre\<close> in the order of the decoder. In the schedules that greedy_allocate returns, the
  amounts of the items of flow \<open>i\<close> are taken one after the other out of \<open>s\<close> by the
  subtraction of doubles, each amount positive and at most what is left of the demand, and
  what is left at the end is not negative; their sum as real numbers is at most
  \<open>s * (1 + n / 2\<^sup>5\<^sup>3)\<close> for \<open>n\<close> items. The same items are taken out of the shared
  remaining-capacity table as the decoder leaves it after the flows \<open>pre\<close>, each out of
  the entry of its \<open>(t, x, y)\<close> and at most what this entry holds, and the result is the
  table as the decoder leaves it after flow \<open>i\<close>.
\<close>

theorem greedy_allocate_flow_total:
  assumes run: "greedy_allocate g flows solution = Some (schedules, score)"
    and order: "flow_order flows = pre @ int i # post"
    and s: "dbl 0 \<le> flow_s (flows ! i)"
  shows "(\<exists>need'. draw_chain (flow_s (flows ! i)) (map item_z (schedules ! i)) = Some need' \<and>
            dbl 0 \<le> need') \<and>
         delivered_total (schedules ! i)
           \<le> dval (flow_s (flows ! i)) * (1 + real (length (schedules ! i)) / 2 ^ 53) \<and>
         (\<exists>rc_before scheds_before rc_after scheds_after.
            decode_flows g flows solution pre = Some (rc_before, scheds_before) \<and>
            decode_flows g flows solution (pre @ [int i]) = Some (rc_after, scheds_after) \<and>
            scheds_before ! i = [] \<and> scheds_after ! i = schedules ! i \<and>
            draw_items (int (length (g_pre_bw g ! 0))) (int (length (g_pre_bw g ! 0 ! 0)))
              rc_before (schedules ! i) = Some rc_after)"
proof -
  let ?M = "int (length (g_pre_bw g ! 0))"
  let ?N = "int (length (g_pre_bw g ! 0 ! 0))"
  let ?f = "allocate_flow g ?M ?N flows solution"
  let ?s0 = "replicate (length flows) ([] :: ScheduleItem list)"
  from greedy_allocate_Some [OF run] obtain rc where
    dec: "decode_flows g flows solution (flow_order flows) = Some (rc, schedules)" ..
  from decode_flows_Some [OF dec] obtain rc0 where
    ne: "g_pre_bw g \<noteq> []" "g_pre_bw g ! 0 \<noteq> []"
    and init: "init_remaining_capacity g (int (length (g_pre_bw g))) ?M ?N = Some rc0"
    and fold: "fold_opt ?f (flow_order flows) (rc0, ?s0) = Some (rc, schedules)"
    by blast
  note dfold = decode_flows_fold [OF ne init, of flows solution]
  from fold obtain rb sb where
    before: "fold_opt ?f pre (rc0, ?s0) = Some (rb, sb)"
    and from_i: "fold_opt ?f (int i # post) (rb, sb) = Some (rc, schedules)"
    unfolding order fold_opt_append by (auto split: option.splits)
  from from_i obtain ra sa where
    step: "?f (int i) (rb, sb) = Some (ra, sa)"
    and after: "fold_opt ?f post (ra, sa) = Some (rc, schedules)"
    by (auto split: option.splits)
  from flow_order_distinct [of flows] have fresh: "int i \<notin> set pre" "int i \<notin> set post"
    unfolding order by simp_all
  have "int i \<in> set (flow_order flows)" unfolding order by simp
  then have i: "i < length flows" by (simp add: flow_order_set)
  from allocate_fold_untouched [OF before, of i] fresh(1) i
  have sb: "length sb = length flows" "sb ! i = []" by simp_all
  from allocate_flow_Some [OF step] obtain sidx sched' where
    one: "allocate_one_flow g ?M ?N (flows ! i) (int i) sidx rb (sb ! i) = Some (ra, sched')"
    and sa: "sa = sb[i := sched']"
    by auto
  from allocate_one_flow_draws [OF one] sb(2) obtain need' where
    d: "draw_items ?M ?N rb sched' = Some ra"
    and c: "draw_chain (flow_s (flows ! i)) (map item_z sched') = Some need'"
    by auto
  have sa_i: "sa ! i = sched'" using sb(1) i by (simp add: sa)
  from allocate_fold_untouched [OF after, of i] fresh(2)
  have mine: "schedules ! i = sched'" by (simp add: sa_i)
  from draw_chain_nonneg [OF c s] have need: "dbl 0 \<le> need'" .
  have n0: "0 \<le> dval need'" using need by (simp add: dval_nonneg_iff)
  from draw_chain_sum [OF c s]
  have "sum_list (map dval (map item_z sched'))
          \<le> dval (flow_s (flows ! i)) - dval need'
              + real (length (map item_z sched')) * dval (flow_s (flows ! i)) / 2 ^ 53" .
  also have "\<dots> \<le> dval (flow_s (flows ! i)) * (1 + real (length sched') / 2 ^ 53)"
    using n0 by (simp add: field_simps)
  finally have total: "delivered_total (schedules ! i)
          \<le> dval (flow_s (flows ! i)) * (1 + real (length (schedules ! i)) / 2 ^ 53)"
    by (simp add: delivered_total_def mine comp_def)
  have b: "decode_flows g flows solution pre = Some (rb, sb)"
    using before by (simp only: dfold)
  have a: "decode_flows g flows solution (pre @ [int i]) = Some (ra, sa)"
    using before step by (simp add: dfold fold_opt_append)
  from c need total b a sb(2) sa_i d show ?thesis unfolding mine by blast
qed

subsection \<open>What the decoder reads\<close>











subsection \<open>An index at or above the size of the candidate list\<close>

lemma allocate_one_flow_remap:
  assumes "elem_at (g_candidates g) idx = Some cands" and "int (length cands) \<le> sidx"
  shows "allocate_one_flow g M' N' fl idx sidx rc schedule
           = allocate_one_flow g M' N' fl idx 0 rc schedule"
  using assms by (simp add: allocate_one_flow_def)

lemma allocate_flow_remap:
  assumes i: "i < length solution" and c: "i < length (g_candidates g)"
    and big: "int (length (g_candidates g ! i)) \<le> solution ! i"
  shows "allocate_flow g M' N' flows solution idx st
           = allocate_flow g M' N' flows (solution[i := 0]) idx st"
proof -
  obtain rc schedules where st: "st = (rc, schedules)" by (cases st)
  show ?thesis
  proof (cases "idx = int i")
    case True
    have cands: "elem_at (g_candidates g) idx = Some (g_candidates g ! i)"
      using c True by (simp add: elem_at_def)
    have s1: "elem_at solution idx = Some (solution ! i)"
      and s2: "elem_at (solution[i := 0]) idx = Some 0"
      using i True by (simp_all add: elem_at_def)
    show ?thesis
      unfolding allocate_flow_def st
      by (simp add: s1 s2 allocate_one_flow_remap [OF cands big])
  next
    case False
    then have "elem_at (solution[i := 0]) idx = elem_at solution idx"
      by (auto simp: elem_at_def)
    then show ?thesis unfolding allocate_flow_def st by simp
  qed
qed

text \<open>
  Claim C9, as amended. When the candidate index of a flow in the solution is at or beyond
  the size of the candidate list of the flow, greedy_allocate returns what it returns for
  the solution with that index replaced by 0. A negative index is not remapped: the
  source tests \<open>cand_idx >= size\<close> only, and the theorem
  greedy_allocate_negative_index_counterexample below has no result for the index \<open>- 1\<close>.
\<close>

theorem greedy_allocate_index_remap:
  assumes i: "i < length solution" and c: "i < length (g_candidates g)"
    and big: "int (length (g_candidates g ! i)) \<le> solution ! i"
  shows "greedy_allocate g flows solution = greedy_allocate g flows (solution[i := 0])"
proof -
  have "allocate_flow g M' N' flows solution = allocate_flow g M' N' flows (solution[i := 0])"
    for M' N'
    by (intro ext) (rule allocate_flow_remap [OF i c big])
  then show ?thesis by (simp add: greedy_allocate_def decode_flows_def)
qed

subsection \<open>The score of a flow\<close>




























subsection \<open>The local search\<close>

text \<open>The two outcomes of one iteration.\<close>

lemma ls_step_cases:
  assumes "ls_step g flows st = Some st'"
  obtains (accept) new_solution rng' schedules score problematic_flows where
      "mutate g (int (length flows)) (ls_solution st) (ls_problematic_flows st) (ls_rng st)
         = Some (new_solution, rng')"
      "greedy_allocate g flows new_solution = Some (schedules, score)"
      "score > dadd (ls_best_score st) eps9"
      "find_problematic_flows flows schedules = Some problematic_flows"
      "st' = \<lparr>ls_solution = new_solution, ls_best_score = score, ls_best_solution = new_solution,
             ls_no_improve = 0, ls_problematic_flows = problematic_flows, ls_rng = rng'\<rparr>"
  | (reject) new_solution rng' schedules score where
      "mutate g (int (length flows)) (ls_solution st) (ls_problematic_flows st) (ls_rng st)
         = Some (new_solution, rng')"
      "greedy_allocate g flows new_solution = Some (schedules, score)"
      "\<not> score > dadd (ls_best_score st) eps9"
      "st' = st\<lparr>ls_no_improve := ls_no_improve st + 1, ls_rng := rng'\<rparr>"
proof (cases "mutate g (int (length flows)) (ls_solution st) (ls_problematic_flows st) (ls_rng st)")
  case None
  with assms show ?thesis by (simp add: ls_step_def)
next
  case m: (Some mres)
  obtain new_solution rng' where mres: "mres = (new_solution, rng')" by (cases mres)
  show ?thesis
  proof (cases "greedy_allocate g flows new_solution")
    case None
    with assms m mres show ?thesis by (simp add: ls_step_def)
  next
    case d: (Some dres)
    obtain schedules score where dres: "dres = (schedules, score)" by (cases dres)
    show ?thesis
    proof (cases "score > dadd (ls_best_score st) eps9")
      case True
      show ?thesis
      proof (cases "find_problematic_flows flows schedules")
        case None
        with assms m mres d dres True show ?thesis by (simp add: ls_step_def)
      next
        case (Some problematic_flows)
        with assms m mres d dres True
        have "st' = \<lparr>ls_solution = new_solution, ls_best_score = score, ls_best_solution = new_solution,
             ls_no_improve = 0, ls_problematic_flows = problematic_flows, ls_rng = rng'\<rparr>"
          by (simp add: ls_step_def)
        with m mres d dres True Some show ?thesis using accept by simp
      qed
    next
      case False
      with assms m mres d dres
      have "st' = st\<lparr>ls_no_improve := ls_no_improve st + 1, ls_rng := rng'\<rparr>"
        by (simp add: ls_step_def)
      with m mres d dres False show ?thesis using reject by simp
    qed
  qed
qed

text \<open>The threshold \<open>best_score + 1e-9\<close> is not below the best score.\<close>

lemma dadd_eps9_ge: "b \<le> dadd b eps9"
proof -
  have "0 \<le> dval eps9" using eps9_pos by (simp add: dval_pos_iff)
  then have "dval b \<le> dval b + dval eps9" by simp
  from rd64_mono [OF this] show ?thesis by (simp add: dadd_def less_eq_double_def)
qed

text \<open>
  A score above the threshold exceeds the best score by more than \<open>1e-9\<close> as a real
  number too: the double \<open>1e-9\<close> is above the real \<open>1e-9\<close>, and rounding is monotone.
\<close>

lemma above_threshold:
  assumes "dadd b eps9 < score"
  shows "dval b + 1 / 10 ^ 9 < dval score"
proof (rule ccontr)
  assume "\<not> dval b + 1 / 10 ^ 9 < dval score"
  then have "dval score \<le> dval b + 1 / 10 ^ 9" by simp
  also have "(1 / 10 ^ 9 :: real) \<le> dval eps9" by (simp add: eps9_value)
  finally have "dval score \<le> dval b + dval eps9" by simp
  from rd64_mono [OF this] have "score \<le> dadd b eps9"
    by (simp add: dadd_def less_eq_double_def)
  with assms show False by simp
qed

lemma ls_step_best_score: "ls_step g flows st = Some st' \<Longrightarrow> ls_best_score st \<le> ls_best_score st'"
proof (erule ls_step_cases)
  fix new_solution rng' schedules score problematic_flows
  assume "score > dadd (ls_best_score st) eps9"
    and "st' = \<lparr>ls_solution = new_solution, ls_best_score = score, ls_best_solution = new_solution,
             ls_no_improve = 0, ls_problematic_flows = problematic_flows, ls_rng = rng'\<rparr>"
  with dadd_eps9_ge [of "ls_best_score st"] show ?thesis by simp
next
  fix rng'
  assume "st' = st\<lparr>ls_no_improve := ls_no_improve st + 1, ls_rng := rng'\<rparr>"
  then show ?thesis by simp
qed

lemma ls_loop_best_score:
  "ls_loop g flows n st = Some st' \<Longrightarrow> ls_best_score st \<le> ls_best_score st'"
proof (induction n arbitrary: st)
  case 0
  then show ?case by simp
next
  case (Suc n)
  from Suc.prems obtain st1 where step: "ls_step g flows st = Some st1"
    and rest: "(if ls_no_improve st1 > 20 then Some st1 else ls_loop g flows n st1) = Some st'"
    by (auto split: option.splits)
  have "ls_best_score st1 \<le> ls_best_score st'"
  proof (cases "ls_no_improve st1 > 20")
    case True
    with rest show ?thesis by simp
  next
    case False
    with rest have "ls_loop g flows n st1 = Some st'" by simp
    then show ?thesis by (rule Suc.IH)
  qed
  with ls_step_best_score [OF step] show ?case by simp
qed

lemma ls_loop_next_iteration:
  "ls_loop g flows n st = Some a \<Longrightarrow> ls_loop g flows (Suc n) st = Some b \<Longrightarrow>
     ls_best_score a \<le> ls_best_score b"
proof (induction n arbitrary: st)
  case 0
  then have "a = st" by simp
  with ls_loop_best_score [OF "0.prems"(2)] show ?case by simp
next
  case (Suc n)
  from Suc.prems(1) obtain st1 where step: "ls_step g flows st = Some st1"
    and a: "(if ls_no_improve st1 > 20 then Some st1 else ls_loop g flows n st1) = Some a"
    by (auto split: option.splits)
  from Suc.prems(2) step
  have b: "(if ls_no_improve st1 > 20 then Some st1 else ls_loop g flows (Suc n) st1) = Some b"
    by (simp del: ls_loop.simps(2) add: ls_loop.simps(2) [of g flows "Suc n" st])
  show ?case
  proof (cases "ls_no_improve st1 > 20")
    case True
    with a b show ?thesis by simp
  next
    case False
    with a b have "ls_loop g flows n st1 = Some a" "ls_loop g flows (Suc n) st1 = Some b"
      by simp_all
    then show ?thesis by (rule Suc.IH)
  qed
qed

text \<open>
  Claim C7. In every iteration of local_search the best score does not decrease; the
  mutated solution becomes the current and the best solution exactly when its decoded
  score is above \<open>best_score + 1e-9\<close>, the sum taken in double arithmetic as the source
  takes it, and then the score exceeds the best score by more than \<open>1e-9\<close> as a real number;
  otherwise the current solution, the best solution and the best score stay as they
  were. The best score after \<open>n + 1\<close> iterations is at least the best score after \<open>n\<close>, and
  the score local_search returns is at least the score it was given.
\<close>

theorem local_search_hill_climbing:
  "(ls_step g flows st = Some st' \<longrightarrow>
      ls_best_score st \<le> ls_best_score st' \<and>
      (\<exists>new_solution rng' schedules score.
          mutate g (int (length flows)) (ls_solution st) (ls_problematic_flows st) (ls_rng st)
            = Some (new_solution, rng') \<and>
          greedy_allocate g flows new_solution = Some (schedules, score) \<and>
          (if score > dadd (ls_best_score st) eps9
           then ls_best_score st' = score \<and> ls_best_solution st' = new_solution \<and>
                ls_solution st' = new_solution \<and>
                dval (ls_best_score st) + 1 / 10 ^ 9 < dval score
           else ls_best_score st' = ls_best_score st \<and>
                ls_best_solution st' = ls_best_solution st \<and>
                ls_solution st' = ls_solution st))) \<and>
   (ls_loop g flows n st = Some st_n \<and> ls_loop g flows (Suc n) st = Some st_next \<longrightarrow>
      ls_best_score st_n \<le> ls_best_score st_next) \<and>
   (local_search g flows solution current_score max_iterations rng = Some (best_solution, best_score) \<longrightarrow>
      current_score \<le> best_score)"
proof (intro conjI impI)
  assume step: "ls_step g flows st = Some st'"
  then show "ls_best_score st \<le> ls_best_score st'" by (rule ls_step_best_score)
  from step show "\<exists>new_solution rng' schedules score.
          mutate g (int (length flows)) (ls_solution st) (ls_problematic_flows st) (ls_rng st)
            = Some (new_solution, rng') \<and>
          greedy_allocate g flows new_solution = Some (schedules, score) \<and>
          (if score > dadd (ls_best_score st) eps9
           then ls_best_score st' = score \<and> ls_best_solution st' = new_solution \<and>
                ls_solution st' = new_solution \<and>
                dval (ls_best_score st) + 1 / 10 ^ 9 < dval score
           else ls_best_score st' = ls_best_score st \<and>
                ls_best_solution st' = ls_best_solution st \<and>
                ls_solution st' = ls_solution st)"
  proof (cases rule: ls_step_cases)
    case (accept new_solution rng' schedules score problematic_flows)
    with above_threshold [OF accept(3)] show ?thesis
      by (intro exI [of _ new_solution] exI [of _ rng'] exI [of _ schedules] exI [of _ score]) simp
  next
    case (reject new_solution rng' schedules score)
    then show ?thesis by (intro exI [of _ new_solution] exI [of _ rng'] exI [of _ schedules] exI [of _ score]) simp
  qed
next
  assume "ls_loop g flows n st = Some st_n \<and> ls_loop g flows (Suc n) st = Some st_next"
  then show "ls_best_score st_n \<le> ls_best_score st_next"
    using ls_loop_next_iteration by blast
next
  assume "local_search g flows solution current_score max_iterations rng = Some (best_solution, best_score)"
  then obtain st0 stf where "ls_loop g flows (nat max_iterations) st0 = Some stf"
    and "ls_best_score st0 = current_score" and "ls_best_score stf = best_score"
    by (auto simp: local_search_def split: Option.bind_splits prod.splits)
  with ls_loop_best_score show "current_score \<le> best_score" by blast
qed

text \<open>
  Claim C8, as amended. In the branch on problematic flows, the flow picked from the list
  gets, when it has more than one candidate, the index \<open>rng() % num_cands\<close>: an index of its
  candidate list, which is not compared with its index in the current solution; no other
  entry of the solution changes. The drawn index can be the current one: the theorem
  mutate_same_index_counterexample below.
\<close>

theorem mutate_problematic_index:
  assumes "mutate_problematic g solution problematic_flows rng = Some (new_solution, rng')"
  shows "\<exists>idx cands.
           elem_at problematic_flows (int (shd rng mod length problematic_flows)) = Some idx \<and>
           elem_at (g_candidates g) idx = Some cands \<and>
           (if 1 < length cands
            then 0 \<le> idx \<and> idx < int (length solution) \<and>
                 new_solution = solution[nat idx := int (shd (stl rng) mod length cands)] \<and>
                 0 \<le> new_solution ! nat idx \<and> new_solution ! nat idx < int (length cands)
            else new_solution = solution)"
proof -
  from assms obtain idx cands where
    idx: "elem_at problematic_flows (int (shd rng mod length problematic_flows)) = Some idx"
    and cands: "elem_at (g_candidates g) idx = Some cands"
    and rest: "(if int (length cands) > 1 then do {
       new_solution' \<leftarrow> store_at solution idx (int (shd (stl rng) mod nat (int (length cands))));
       Some (new_solution', stl (stl rng)) }
     else Some (solution, stl rng)) = Some (new_solution, rng')"
    by (auto simp: mutate_problematic_def Let_def split: Option.bind_splits)
  show ?thesis
  proof (cases "1 < length cands")
    case True
    with rest have "store_at solution idx (int (shd (stl rng) mod length cands)) = Some new_solution"
      by (auto split: Option.bind_splits)
    then have r: "0 \<le> idx" "idx < int (length solution)"
      "new_solution = solution[nat idx := int (shd (stl rng) mod length cands)]"
      by (auto simp: store_at_def split: if_splits)
    then have "new_solution ! nat idx = int (shd (stl rng) mod length cands)" by simp
    moreover have "0 < length cands" using True by (cases cands) simp_all
    then have "shd (stl rng) mod length cands < length cands" by (rule mod_less_divisor)
    ultimately have "0 \<le> new_solution ! nat idx" "new_solution ! nat idx < int (length cands)"
      by simp_all
    with idx cands True r show ?thesis by simp
  next
    case False
    with rest have "new_solution = solution" by simp
    with idx cands False show ?thesis by simp
  qed
qed

subsection \<open>The examples, evaluated\<close>

lemma distance_entry_0: "distance_entry 0 = dbl 1"
  by (simp add: distance_entry_def dpow_def dmul_def d_of_int_def)

lemma replicate_numeral_Cons: "replicate (numeral k) x = x # replicate (pred_numeral k) x"
  by (simp add: numeral_eq_Suc)

lemma list_update_Cons_numeral: "(x # xs)[numeral k := v] = x # xs[pred_numeral k := v]"
  by (simp add: numeral_eq_Suc)

lemmas prep_defs =
  initial_decode_def preprocess_def build_bandwidth_matrix_def cell_bandwidth_def int32_def
  build_lookup_tables_def smod_int_alt_def
  build_smart_candidates_def flow_candidates_def raw_candidates_def make_candidate_def
  metrics_step_def metrics_init_def pre_bw_at_def lookup_clamped_def elem_at_def admitted_def
  initial_globals_def candidate_slots_def slot_step_def upto.simps Let_def
  distance_entry_0 delay_entry_def ex_flow_def generate_smart_initial_solution_def

lemmas decode_defs =
  greedy_allocate_def decode_flows_def init_remaining_capacity_def init_step_def pre_bw_at_def
  capacity_idx_def store_at_def elem_at_def flow_order_def allocate_flow_def allocate_one_flow_def
  consume_candidate_def candidate_and_slots_def weighted_score_step_def compute_flow_score_fast_def
  score_step_def score_init_def weighted_terms_def lookup_clamped_def cand_at_def slot_at_def
  ex_item_def ex_flow_def distance_entry_0 delay_entry_def upto.simps Let_def
  replicate_numeral_Cons list_update_Cons_numeral

lemma ex_decode_00:
  "greedy_allocate ex_globals ex_flows [0, 0] = Some ([[ex_item 0 0 0 (dbl 10)], []], ex_score_low)"
  by (simp add: decode_defs ex_globals_def ex_flows_def ex_score_low_def dbl_eval)

lemma ex_decode_01:
  "greedy_allocate ex_globals ex_flows [0, 1] =
     Some ([[ex_item 0 0 0 (dbl 10)], [ex_item 0 0 2 (dbl 10)]], ex_score_high)"
  by (simp add: decode_defs ex_globals_def ex_flows_def ex_score_high_def dbl_eval)

lemma ex_flow_order: "flow_order ex_flows = [0, 1]"
  by (simp add: flow_order_def ex_flows_def ex_flow_def upto.simps)

lemma ex_mutate:
  "mutate ex_globals (int (length ex_flows)) [0, 0] [1] rng_42 = Some ([0, 1], sconst 0)"
  by (simp add: mutate_def mutate_problematic_def rng_42_def ex_globals_def ex_flows_def
        elem_at_def store_at_def Let_def)

lemma ex_problematic_00: "find_problematic_flows ex_flows [[ex_item 0 0 0 (dbl 10)], []] = Some [1]"
  by (simp add: find_problematic_flows_def problematic_step_def transmitted_total_def elem_at_def
        ex_flows_def ex_flow_def ex_item_def upto.simps dbl_eval)

lemma ex_problematic_01:
  "find_problematic_flows ex_flows [[ex_item 0 0 0 (dbl 10)], [ex_item 0 0 2 (dbl 10)]] = Some []"
  by (simp add: find_problematic_flows_def problematic_step_def transmitted_total_def elem_at_def
        ex_flows_def ex_flow_def ex_item_def upto.simps dbl_eval)

lemma ex_score_improves: "dadd ex_score_low eps9 < ex_score_high"
  by (simp add: ex_score_low_def ex_score_high_def dbl_eval)

lemma ex_step: "ls_step ex_globals ex_flows ex_state = Some ex_state_accepted"
  using ex_mutate ex_score_improves
  by (simp add: ls_step_def ex_state_def ex_state_accepted_def ex_decode_01 ex_problematic_01)

lemma ex_local_search:
  "local_search ex_globals ex_flows [0, 0] ex_score_low 1 rng_42 = Some ([0, 1], ex_score_high)"
  using ex_step
  by (simp add: local_search_def ex_decode_00 ex_problematic_00 ex_state_def ex_state_accepted_def)


lemma idle_candidates:
  "\<exists>g'. build_smart_candidates [idle_flow] 1 1 2 60 idle_globals = Some g' \<and>
        map length (g_candidates g') = [1]"
  by (simp add: build_smart_candidates_def flow_candidates_def raw_candidates_def make_candidate_def
        metrics_step_def metrics_init_def pre_bw_at_def lookup_clamped_def elem_at_def admitted_def
        idle_flow_def ex_flow_def idle_globals_def candidate_slots_def slot_step_def
        candidate_potential_def upto.simps Let_def dbl_eval)

subsection \<open>The theorems on the examples\<close>

text \<open>
  Claim C5 as stated fails for a negative phase: with phase \<open>- 7\<close> at time 0,
  \<open>(phase + t) mod 10\<close> is 3, for which the claim gives the base bandwidth 10, and the
  entry that build_bandwidth_matrix writes is 0, since \<open>-7 % 10\<close> is \<open>-7\<close> in C++.
\<close>

theorem build_bandwidth_matrix_entries_counterexample:
  "(- 7 + 0) mod 10 = (3::int) \<and>
   map_option g_pre_bw (build_bandwidth_matrix 1 1 1 [[dbl 10]] [[- 7]] initial_globals)
     = Some [[[dbl 0]]] \<and>
   dbl 0 \<noteq> dbl 10"
  by (simp add: build_bandwidth_matrix_def cell_bandwidth_def int32_def smod_int_alt_def
        elem_at_def initial_globals_def upto.simps Let_def dbl_eval)

text \<open>
  The amended claim C5 on a grid of one row and two cells over three time steps.
\<close>

theorem build_bandwidth_matrix_entries_witness:
  "(0::int) \<le> 3 \<and> length [[dbl 10, dbl 4]] = nat 1 \<and>
   list_all (\<lambda>r. length r = nat 2) [[dbl 10, dbl 4]] \<and>
   length [[1, 5 :: int]] = nat 1 \<and> list_all (\<lambda>r. length r = nat 2) [[1, 5 :: int]] \<and>
   (\<exists>g'. build_bandwidth_matrix 1 2 3 [[dbl 10, dbl 4]] [[1, 5]] initial_globals = Some g' \<and>
      g_pre_bw g' ! 2 ! 0 ! 0 = dbl 10 \<and> g_pre_bw g' ! 2 ! 0 ! 1 = dbl 2 \<and>
      g_pre_bw g' ! 0 ! 0 ! 0 = dbl 0)"
proof -
  have h: "(0::int) \<le> 3" "length [[dbl 10, dbl 4]] = nat 1"
    "list_all (\<lambda>r. length r = nat 2) [[dbl 10, dbl 4]]"
    "length [[1, 5 :: int]] = nat 1" "list_all (\<lambda>r. length r = nat 2) [[1, 5 :: int]]"
    "(0::int) \<le> 1" "(0::int) \<le> 2"
    by simp_all
  from build_bandwidth_matrix_entries [OF h, of initial_globals] obtain g' where
    build: "build_bandwidth_matrix 1 2 3 [[dbl 10, dbl 4]] [[1, 5]] initial_globals = Some g'"
    and entries: "\<And>t x y. 0 \<le> t \<and> t < 3 \<and> 0 \<le> x \<and> x < 1 \<and> 0 \<le> y \<and> y < 2 \<Longrightarrow>
              (let phi = [[1, 5]] ! nat x ! nat y;
                   tau = int32 (phi + t) smod 10;
                   base = [[dbl 10, dbl 4]] ! nat x ! nat y;
                   v = g_pre_bw g' ! nat t ! nat x ! nat y
               in (0 \<le> phi + t \<and> phi + t < 2 ^ 31 \<longrightarrow> tau = (phi + t) mod 10) \<and>
                  (3 \<le> tau \<and> tau \<le> 6 \<longrightarrow> v = base) \<and>
                  (tau = 2 \<or> tau = 7 \<longrightarrow> v = ddiv base (dbl 2)) \<and>
                  (tau < 2 \<or> 7 < tau \<longrightarrow> v = dbl 0) \<and>
                  (v = dbl 0 \<or> v = ddiv base (dbl 2) \<or> v = base) \<and>
                  (2 powr (- 1021) \<le> \<bar>dval base\<bar> \<longrightarrow> dval (ddiv base (dbl 2)) = dval base / 2))"
    by blast
  have half: "ddiv (dbl 4) (dbl 2) = dbl 2" by (simp add: dbl_eval)
  from entries [of 2 0 0] have "g_pre_bw g' ! 2 ! 0 ! 0 = dbl 10"
    by (simp add: Let_def smod_int_alt_def int32_def)
  moreover from entries [of 2 0 1] have "g_pre_bw g' ! 2 ! 0 ! 1 = dbl 2"
    by (simp add: Let_def smod_int_alt_def int32_def half)
  moreover from entries [of 0 0 0] have "g_pre_bw g' ! 0 ! 0 ! 0 = dbl 0"
    by (simp add: Let_def smod_int_alt_def int32_def)
  ultimately show ?thesis using h build by simp
qed



text \<open>
  Claim C1 as stated fails: on a grid of a single cell, the preprocessing of solve gives
  the flow a candidate list of size 1.
\<close>

theorem final_candidates_size_counterexample:
  "map_option (map length \<circ> g_candidates) (preprocess 1 1 1 [[dbl 10]] [[3]] [full_flow]) = Some [1]"
  by (simp add: prep_defs full_flow_def dbl_eval)

text \<open>
  The amended claim C1 on a flow over two cells: both cells are admitted (their distance
  is at most 2), and the second one is dropped as too close to the first.
\<close>

theorem final_candidates_size_witness:
  "\<exists>g' raw. build_smart_candidates [idle_flow] 1 1 2 60 idle_globals = Some g' \<and>
     (0::nat) < length [idle_flow] \<and>
     raw_candidates idle_globals 1 60 ([idle_flow] ! 0) = Some raw \<and>
     1 \<le> length (g_candidates g' ! 0) \<and> length (g_candidates g' ! 0) \<le> 8 \<and>
     length (g_candidates g' ! 0) \<le> length raw \<and>
     int (length (g_candidates g' ! 0)) \<le>
        (flow_m2 ([idle_flow] ! 0) - flow_m1 ([idle_flow] ! 0) + 1) *
        (flow_n2 ([idle_flow] ! 0) - flow_n1 ([idle_flow] ! 0) + 1)"
proof -
  from idle_candidates obtain g' where
    build: "build_smart_candidates [idle_flow] 1 1 2 60 idle_globals = Some g'" by blast
  have idx: "(0::nat) < length [idle_flow]" by simp
  from final_candidates_size [OF build idx] build idx show ?thesis by blast
qed

text \<open>
  Claim C2 as stated fails. On a grid of a single cell of bandwidth 0.9 and phase 2 over
  two time steps, with a flow of size 0.3 from time 0 and a flow of size 5 from time 1,
  the first decoding of solve delivers 0.3 and then \<open>0.9 - 0.3\<close>, which is
  0.6000000000000001 in double arithmetic, at time 1: the two amounts sum to more than
  the capacity 0.9 of the cell at time 1.
\<close>

theorem greedy_allocate_capacity_counterexample:
  "map_option g_pre_bw (preprocess 1 1 2 [[dbl 0.9]] [[2]] shared_cell_flows)
     = Some [[[dbl 0.45]], [[dbl 0.9]]] \<and>
   map_option fst (initial_decode 1 1 2 [[dbl 0.9]] [[2]] shared_cell_flows)
     = Some [[ex_item 1 0 0 (dbl 0.3)], [ex_item 1 0 0 (dsub (dbl 0.9) (dbl 0.3))]] \<and>
   dval (dbl 0.9)
     < (\<Sum>schedule\<leftarrow>[[ex_item 1 0 0 (dbl 0.3)], [ex_item 1 0 0 (dsub (dbl 0.9) (dbl 0.3))]].
          delivered_at schedule 1 0 0)"
  by (simp add: prep_defs decode_defs shared_cell_flows_def delivered_at_def drawn_at_def
        at_cell_def dbl_eval)

text \<open>
  The amended claim C2 on the example, at the cell \<open>(0, 0, 0)\<close> of capacity 10.
\<close>

theorem greedy_allocate_capacity_witness:
  "greedy_allocate ex_globals ex_flows [0, 0]
     = Some ([[ex_item 0 0 0 (dbl 10)], []], ex_score_low) \<and>
   (0::int) \<le> 0 \<and> 0 < int (length (g_pre_bw ex_globals)) \<and>
   0 < int (length (g_pre_bw ex_globals ! 0)) \<and> 0 < int (length (g_pre_bw ex_globals ! 0 ! 0)) \<and>
   dbl 0 \<le> g_pre_bw ex_globals ! nat 0 ! nat 0 ! nat 0 \<and>
   (\<exists>r. draw_chain (g_pre_bw ex_globals ! nat 0 ! nat 0 ! nat 0)
           (drawn_at (draw_sequence ex_flows [[ex_item 0 0 0 (dbl 10)], []]) 0 0 0) = Some r \<and>
        dbl 0 \<le> r) \<and>
   (\<Sum>schedule\<leftarrow>[[ex_item 0 0 0 (dbl 10)], []]. delivered_at schedule 0 0 0)
      \<le> dval (g_pre_bw ex_globals ! nat 0 ! nat 0 ! nat 0)
          * (1 + real (length (drawn_at (draw_sequence ex_flows [[ex_item 0 0 0 (dbl 10)], []]) 0 0 0))
                 / 2 ^ 53)"
proof -
  have h: "(0::int) \<le> 0" "0 < int (length (g_pre_bw ex_globals))"
    "(0::int) \<le> 0" "0 < int (length (g_pre_bw ex_globals ! 0))"
    "(0::int) \<le> 0" "0 < int (length (g_pre_bw ex_globals ! 0 ! 0))"
    "dbl 0 \<le> g_pre_bw ex_globals ! nat 0 ! nat 0 ! nat 0"
    by (simp_all add: ex_globals_def dbl_eval)
  from greedy_allocate_capacity [OF ex_decode_00 h] ex_decode_00 h show ?thesis by blast
qed

text \<open>
  Claim C3 as stated fails. On a grid of a single cell of bandwidth 1.2 and phase 3 over
  three time steps, a flow of size 3.4 is delivered 1.2, 1.2 and 1.0000000000000002:
  \<open>3.4 - 1.2\<close> is 2.2 and \<open>2.2 - 1.2\<close> is 1.0000000000000002 in double arithmetic. The
  three amounts sum to more than the demand 3.4.
\<close>

theorem greedy_allocate_flow_total_counterexample:
  "map_option fst (initial_decode 1 1 3 [[dbl 1.2]] [[3]] [long_flow])
     = Some [[ex_item 0 0 0 (dbl 1.2), ex_item 1 0 0 (dbl 1.2), ex_item 2 0 0 (dbl (1 + 1 / 2 ^ 52))]] \<and>
   flow_s long_flow = dbl 3.4 \<and>
   dval (dbl 3.4)
     < delivered_total
         [ex_item 0 0 0 (dbl 1.2), ex_item 1 0 0 (dbl 1.2), ex_item 2 0 0 (dbl (1 + 1 / 2 ^ 52))]"
  by (simp add: prep_defs decode_defs long_flow_def delivered_total_def dbl_eval)

text \<open>
  The amended claim C3 on the example, for the first flow.
\<close>

theorem greedy_allocate_flow_total_witness:
  "greedy_allocate ex_globals ex_flows [0, 0]
     = Some ([[ex_item 0 0 0 (dbl 10)], []], ex_score_low) \<and>
   flow_order ex_flows = [] @ int 0 # [1] \<and> dbl 0 \<le> flow_s (ex_flows ! 0) \<and>
   (\<exists>need'. draw_chain (flow_s (ex_flows ! 0))
               (map item_z ([[ex_item 0 0 0 (dbl 10)], []] ! 0)) = Some need' \<and> dbl 0 \<le> need') \<and>
   delivered_total ([[ex_item 0 0 0 (dbl 10)], []] ! 0)
     \<le> dval (flow_s (ex_flows ! 0))
         * (1 + real (length ([[ex_item 0 0 0 (dbl 10)], []] ! 0)) / 2 ^ 53) \<and>
   (\<exists>rc_before scheds_before rc_after scheds_after.
      decode_flows ex_globals ex_flows [0, 0] [] = Some (rc_before, scheds_before) \<and>
      decode_flows ex_globals ex_flows [0, 0] ([] @ [int 0]) = Some (rc_after, scheds_after) \<and>
      scheds_before ! 0 = [] \<and> scheds_after ! 0 = [[ex_item 0 0 0 (dbl 10)], []] ! 0 \<and>
      draw_items (int (length (g_pre_bw ex_globals ! 0))) (int (length (g_pre_bw ex_globals ! 0 ! 0)))
        rc_before ([[ex_item 0 0 0 (dbl 10)], []] ! 0) = Some rc_after)"
proof -
  have o: "flow_order ex_flows = [] @ int 0 # [1]"
    using ex_flow_order by simp
  have s: "dbl 0 \<le> flow_s (ex_flows ! 0)"
    by (simp add: ex_flows_def ex_flow_def dbl_eval)
  note h = o s
  from greedy_allocate_flow_total [OF ex_decode_00 h] ex_decode_00 h show ?thesis by blast
qed


text \<open>
  Claim C9 as stated fails for a negative index: with \<open>- 1\<close> for the second flow the decoder
  reads \<open>g_candidates[1][-1]\<close> and has no result, while index 0 gives a schedule.
\<close>

theorem greedy_allocate_negative_index_counterexample:
  "greedy_allocate ex_globals ex_flows [0, - 1] = None \<and>
   greedy_allocate ex_globals ex_flows [0, 0]
     = Some ([[ex_item 0 0 0 (dbl 10)], []], ex_score_low)"
  using ex_decode_00 by (simp add: decode_defs ex_globals_def ex_flows_def dbl_eval)

text \<open>
  The amended claim C9 on the example: index 7 for the second flow, which has three
  candidates, decodes as index 0 does.
\<close>

theorem greedy_allocate_index_remap_witness:
  "(1::nat) < length [0, 7 :: int] \<and> 1 < length (g_candidates ex_globals) \<and>
   int (length (g_candidates ex_globals ! 1)) \<le> [0, 7] ! 1 \<and>
   greedy_allocate ex_globals ex_flows [0, 7] = greedy_allocate ex_globals ex_flows ([0, 7][1 := 0]) \<and>
   greedy_allocate ex_globals ex_flows [0, 7]
     = Some ([[ex_item 0 0 0 (dbl 10)], []], ex_score_low)"
proof -
  have h: "(1::nat) < length [0, 7 :: int]" "1 < length (g_candidates ex_globals)"
    "int (length (g_candidates ex_globals ! 1)) \<le> [0, 7] ! 1"
    by (simp_all add: ex_globals_def)
  from greedy_allocate_index_remap [OF h, of ex_flows] ex_decode_00
  have "greedy_allocate ex_globals ex_flows [0, 7]
     = Some ([[ex_item 0 0 0 (dbl 10)], []], ex_score_low)"
    by simp
  with greedy_allocate_index_remap [OF h, of ex_flows] h show ?thesis by blast
qed



text \<open>
  Claim C7 on the example: the first iteration moves the second flow to its candidate 1,
  which is accepted.
\<close>

theorem local_search_hill_climbing_witness:
  "ls_step ex_globals ex_flows ex_state = Some ex_state_accepted \<and>
   ls_loop ex_globals ex_flows 0 ex_state = Some ex_state \<and>
   ls_loop ex_globals ex_flows (Suc 0) ex_state = Some ex_state_accepted \<and>
   local_search ex_globals ex_flows [0, 0] ex_score_low 1 rng_42 = Some ([0, 1], ex_score_high) \<and>
   ls_best_score ex_state \<le> ls_best_score ex_state_accepted \<and>
   ex_score_low \<le> ex_score_high"
proof -
  have l0: "ls_loop ex_globals ex_flows 0 ex_state = Some ex_state" by simp
  have l1: "ls_loop ex_globals ex_flows (Suc 0) ex_state = Some ex_state_accepted"
    by (simp add: ex_step ex_state_accepted_def)
  from local_search_hill_climbing [of ex_globals ex_flows ex_state ex_state_accepted 0 ex_state
      ex_state_accepted "[0, 0]" ex_score_low 1 rng_42 "[0, 1]" ex_score_high]
    ex_step l0 l1 ex_local_search
  show ?thesis by blast
qed

text \<open>
  Claim C8 as stated fails: with the first outputs of the generator, the problematic flow
  1, which has two candidates and index 0 in the current solution, is given index 0 again.
\<close>

theorem mutate_same_index_counterexample:
  "mutate ex_globals_two (int (length ex_flows)) [0, 0] [1] rng_42 = Some ([0, 0], sconst 0) \<and>
   shd rng_42 mod 10 < 7 \<and> length (g_candidates ex_globals_two ! 1) = 2"
  by (simp add: mutate_def mutate_problematic_def rng_42_def ex_globals_two_def ex_globals_def
        ex_flows_def elem_at_def store_at_def Let_def)

text \<open>
  The amended claim C8 on the example, where the picked flow has three candidates.
\<close>

theorem mutate_problematic_index_witness:
  "mutate_problematic ex_globals [0, 0] [1] (stl rng_42) = Some ([0, 1], sconst 0) \<and>
   (\<exists>idx cands.
      elem_at [1] (int (shd (stl rng_42) mod length [1 :: int])) = Some idx \<and>
      elem_at (g_candidates ex_globals) idx = Some cands \<and>
      (if 1 < length cands
       then 0 \<le> idx \<and> idx < int (length [0, 0 :: int]) \<and>
            [0, 1] = [0, 0][nat idx := int (shd (stl (stl rng_42)) mod length cands)] \<and>
            0 \<le> [0, 1 :: int] ! nat idx \<and> [0, 1 :: int] ! nat idx < int (length cands)
       else [0, 1] = [0, 0 :: int]))"
proof -
  have h: "mutate_problematic ex_globals [0, 0] [1] (stl rng_42) = Some ([0, 1], sconst 0)"
    by (simp add: mutate_problematic_def rng_42_def ex_globals_def elem_at_def store_at_def Let_def)
  show ?thesis by (rule conjI [OF h mutate_problematic_index [OF h]])
qed

end
